theory Spec2Isabelle
  imports Main "HOL-Library.Sublist" "HOL-Library.AList"
begin

section \<open>JavaScript strings\<close>

text \<open>
  Text is modelled as \<open>string\<close>, one \<open>char\<close> per code unit, so it is text whose code
  units are below 256. The case mappings are those of the ASCII letters (every other
  character is its own upper and lower case).
  The built-in methods the sources call are written out as recursive functions;
  the lemmas of the next sections relate them to \<open>prefix\<close>, \<open>suffix\<close> and \<open>sublist\<close>.
\<close>

definition toLowerChar :: "char \<Rightarrow> char" where
  "toLowerChar c =
     (case map_of (zip ''ABCDEFGHIJKLMNOPQRSTUVWXYZ'' ''abcdefghijklmnopqrstuvwxyz'') c of
        Some d \<Rightarrow> d
      | None \<Rightarrow> c)"

definition toUpperChar :: "char \<Rightarrow> char" where
  "toUpperChar c =
     (case map_of (zip ''abcdefghijklmnopqrstuvwxyz'' ''ABCDEFGHIJKLMNOPQRSTUVWXYZ'') c of
        Some d \<Rightarrow> d
      | None \<Rightarrow> c)"

definition toLowerCase :: "string \<Rightarrow> string" where
  "toLowerCase s = map toLowerChar s"

fun startsWith :: "string \<Rightarrow> string \<Rightarrow> bool" where
  "startsWith s [] = True"
| "startsWith [] (p # ps) = False"
| "startsWith (c # cs) (p # ps) = (c = p \<and> startsWith cs ps)"

definition endsWith :: "string \<Rightarrow> string \<Rightarrow> bool" where
  "endsWith s p = startsWith (rev s) (rev p)"

fun js_includes :: "string \<Rightarrow> string \<Rightarrow> bool" where
  "js_includes [] p = (p = [])"
| "js_includes (c # cs) p = (startsWith (c # cs) p \<or> js_includes cs p)"

text \<open>\<open>s.split(d)\<close> for a one-character separator: never the empty list.\<close>

fun js_split :: "char \<Rightarrow> string \<Rightarrow> string list" where
  "js_split d [] = [[]]"
| "js_split d (c # cs) =
     (if c = d then [] # js_split d cs
      else (case js_split d cs of
              [] \<Rightarrow> [[c]]
            | p # ps \<Rightarrow> (c # p) # ps))"

fun js_join :: "string \<Rightarrow> string list \<Rightarrow> string" where
  "js_join sep [] = []"
| "js_join sep [w] = w"
| "js_join sep (w # v # ws) = w @ sep @ js_join sep (v # ws)"

text \<open>\<open>xs.indexOf(x)\<close>: the first position of \<open>x\<close>, or \<open>-1\<close>.\<close>

fun indexOf_from :: "int \<Rightarrow> 'a list \<Rightarrow> 'a \<Rightarrow> int" where
  "indexOf_from i [] x = -1"
| "indexOf_from i (y # ys) x = (if y = x then i else indexOf_from (i + 1) ys x)"

definition indexOf :: "'a list \<Rightarrow> 'a \<Rightarrow> int" where
  "indexOf xs x = indexOf_from 0 xs x"


section \<open>utils.js: determineCategory\<close>

text \<open>\<open>word.charAt(0).toUpperCase() + word.slice(1)\<close>\<close>

definition capitalize :: "string \<Rightarrow> string" where
  "capitalize w = map toUpperChar (take 1 w) @ drop 1 w"

text \<open>The \<open>for (const category of categories)\<close> loop and the final \<open>return 'Other'\<close>.\<close>

fun matchCategory :: "string \<Rightarrow> string list \<Rightarrow> string" where
  "matchCategory productName [] = ''Other''"
| "matchCategory productName (category # categories) =
     (if js_includes (toLowerCase productName) (toLowerCase category) then category
      else matchCategory productName categories)"

definition determineCategory :: "string \<Rightarrow> string \<Rightarrow> string list \<Rightarrow> string" where
  "determineCategory productName url categories =
     (let urlParts = js_split CHR ''/'' url;
          collectionIndex = indexOf urlParts ''collections''
      in if collectionIndex \<noteq> -1 \<and> collectionIndex + 1 < int (length urlParts) then
           (let urlCategory = urlParts ! nat (collectionIndex + 1)
            in if urlCategory \<noteq> [] then
                 js_join '' '' (map capitalize (js_split CHR ''-'' urlCategory))
               else matchCategory productName categories)
         else matchCategory productName categories)"


section \<open>utils.js: extractLinks\<close>

text \<open>
  A JavaScript \<open>Set\<close> of strings keeps its elements in insertion order; it is modelled
  as the list of its elements in that order. \<open>set_add\<close> is \<open>Set.prototype.add\<close> and
  \<open>new_Set\<close> is \<open>new Set(array)\<close>, so \<open>[...new Set(links)]\<close> is \<open>new_Set links\<close>.
\<close>

definition set_add :: "'a list \<Rightarrow> 'a \<Rightarrow> 'a list" where
  "set_add xs x = (if x \<in> set xs then xs else xs @ [x])"

definition new_Set :: "'a list \<Rightarrow> 'a list" where
  "new_Set xs = foldl set_add [] xs"

definition isQuote :: "char \<Rightarrow> bool" where
  "isQuote c = (c = CHR 0x22 \<or> c = CHR 0x27)"

text \<open>
  One alternative of \<open>/href=["']([^"']+)["']|src=["']([^"']+)["']/g\<close> tried at the start
  of \<open>s\<close>: the attribute name and \<open>=\<close>, a quote, the longest non-empty run of
  characters that are not quotes (the capture), and a quote. A shorter run is followed
  by a character that is not a quote, so backtracking finds nothing more. The result
  is the capture and the text after the match.
\<close>

definition match_attr :: "string \<Rightarrow> string \<Rightarrow> (string \<times> string) option" where
  "match_attr name s =
     (if startsWith s (name @ ''='') then
        (case drop (length name + 1) s of
           [] \<Rightarrow> None
         | q # r \<Rightarrow>
             if isQuote q then
               (let v = takeWhile (\<lambda>c. \<not> isQuote c) r;
                    rest = dropWhile (\<lambda>c. \<not> isQuote c) r
                in if v \<noteq> [] \<and> rest \<noteq> [] then Some (v, tl rest) else None)
             else None)
      else None)"

definition match_here :: "string \<Rightarrow> (string \<times> string) option" where
  "match_here s =
     (case match_attr ''href'' s of
        Some m \<Rightarrow> Some m
      | None \<Rightarrow> match_attr ''src'' s)"

text \<open>
  The successive \<open>regex.exec(html)\<close> calls of the \<open>while\<close> loop: the leftmost match
  at or after \<open>lastIndex\<close>, then on from the end of that match. The result lists
  \<open>match[1] || match[2]\<close> of every match.
\<close>

function regex_exec_all :: "string \<Rightarrow> string list" where
  "regex_exec_all s =
     (case s of
        [] \<Rightarrow> []
      | c # cs \<Rightarrow>
          (case match_here s of
             Some (v, rest) \<Rightarrow> v # regex_exec_all rest
           | None \<Rightarrow> regex_exec_all cs))"
  by pat_completeness auto
termination
proof (relation "measure length")
  show "wf (measure length)" by simp
next
  fix s :: string and c cs x2 v rest
  assume s: "s = c # cs" and m: "match_here s = Some x2" and x2: "(v, rest) = x2"
  have len: "length (tl (dropWhile P r)) \<le> length r" for P and r :: string
    by (metis diff_le_self le_trans length_dropWhile_le length_tl)
  have "length rest < length s" if "match_attr name s = Some (v, rest)" "name \<noteq> []" for name
  proof -
    from that(1) obtain q r where r: "drop (length name + 1) s = q # r"
      and rest: "rest = tl (dropWhile (\<lambda>c. \<not> isQuote c) r)"
      by (auto simp: match_attr_def Let_def split: if_splits list.splits)
    have "length (q # r) \<le> length s"
      by (metis r length_drop diff_le_self)
    with len [of "\<lambda>c. \<not> isQuote c" r] rest show ?thesis by simp
  qed
  from this [of "''href''"] this [of "''src''"] m x2
  have "length rest < length s"
    by (auto simp: match_here_def split: option.splits)
  then show "(rest, s) \<in> measure length" by simp
next
  fix s :: string and c cs
  assume "s = c # cs"
  then show "(cs, s) \<in> measure length" by simp
qed

text \<open>
  The body of the loop. \<open>newURL url baseUrl\<close> stands for \<open>new URL(url, baseUrl).href\<close>
  of the platform, \<open>None\<close> when the constructor throws (the \<open>catch\<close> logs and goes on).
\<close>

fun link_loop ::
  "(string \<Rightarrow> string \<Rightarrow> string option) \<Rightarrow> string list \<Rightarrow> string \<Rightarrow> string list \<Rightarrow> string list
     \<Rightarrow> string list" where
  "link_loop newURL fileExtensions baseUrl [] links = links"
| "link_loop newURL fileExtensions baseUrl (url # matches) links =
     (if url \<noteq> [] then
        (let hasMatchingExtension =
               list_ex (\<lambda>ext. endsWith (toLowerCase url) ext) fileExtensions
         in if hasMatchingExtension then
              (case newURL url baseUrl of
                 Some absoluteUrl \<Rightarrow>
                   link_loop newURL fileExtensions baseUrl matches (links @ [absoluteUrl])
               | None \<Rightarrow> link_loop newURL fileExtensions baseUrl matches links)
            else link_loop newURL fileExtensions baseUrl matches links)
      else link_loop newURL fileExtensions baseUrl matches links)"

definition extractLinks ::
  "(string \<Rightarrow> string \<Rightarrow> string option) \<Rightarrow> string \<Rightarrow> string list \<Rightarrow> string \<Rightarrow> string list" where
  "extractLinks newURL html fileExtensions baseUrl =
     new_Set (link_loop newURL fileExtensions baseUrl (regex_exec_all html) [])"


subsection \<open>The platform's URL class\<close>

text \<open>
  \<open>extractLinks\<close> takes the resolver as its first argument, so what is proved of it
  holds for every resolver. \<open>URL_pathname\<close> is the \<open>pathname\<close> of a URL object read off
  its \<open>href\<close>, for an http or https URL: the \<open>href\<close> is the scheme, \<open>://\<close>, the
  authority, and then the path up to the first \<open>?\<close> or \<open>#\<close>.
\<close>

definition URL_pathname :: "string \<Rightarrow> string" where
  "URL_pathname href =
     (let afterScheme = drop 2 (dropWhile (\<lambda>c. c \<noteq> CHR ''/'') href);
          fromPath = dropWhile (\<lambda>c. c \<noteq> CHR ''/'') afterScheme
      in takeWhile (\<lambda>c. c \<noteq> CHR ''?'' \<and> c \<noteq> CHR ''#'') fromPath)"


section \<open>product-parser.js\<close>

subsection \<open>The cheerio interface\<close>

text \<open>
  \<open>cheerio.load(html)\<close> gives the query function \<open>$\<close>. The parser uses four operations
  of it, which are the fields of the record below, over any type \<open>'e\<close> of page elements;
  a cheerio collection is the list of its elements in document order.
  \<open>dollar\<close> is \<open>$(selector)\<close>, \<open>find_in c sel\<close> is \<open>c.find(sel)\<close>, \<open>text_in c\<close> is \<open>c.text()\<close>
  and \<open>attr_in c name\<close> is \<open>c.attr(name)\<close> (\<open>None\<close> for \<open>undefined\<close>) on a collection
  that is not empty. On the empty collection cheerio returns the empty string and
  \<open>undefined\<close>, which \<open>c_text\<close> and \<open>c_attr\<close> write out.
\<close>

record 'e cheerio =
  dollar :: "string \<Rightarrow> 'e list"
  find_in :: "'e list \<Rightarrow> string \<Rightarrow> 'e list"
  text_in :: "'e list \<Rightarrow> string"
  attr_in :: "'e list \<Rightarrow> string \<Rightarrow> string option"

definition c_text :: "'e cheerio \<Rightarrow> 'e list \<Rightarrow> string" where
  "c_text api c = (if c = [] then [] else text_in api c)"

definition c_attr :: "'e cheerio \<Rightarrow> 'e list \<Rightarrow> string \<Rightarrow> string option" where
  "c_attr api c name = (if c = [] then None else attr_in api c name)"

definition c_find :: "'e cheerio \<Rightarrow> 'e list \<Rightarrow> string \<Rightarrow> 'e list" where
  "c_find api c sel = (if c = [] then [] else find_in api c sel)"

text \<open>\<open>c.first()\<close>, and \<open>$(c[j])\<close>, which is the empty collection when \<open>c[j]\<close> is \<open>undefined\<close>.\<close>

definition c_first :: "'e list \<Rightarrow> 'e list" where
  "c_first c = take 1 c"

definition c_at :: "'e list \<Rightarrow> nat \<Rightarrow> 'e list" where
  "c_at c j = (if j < length c then [c ! j] else [])"

text \<open>
  \<open>s.trim()\<close> strips white space and line terminators from both ends. Those with a
  code below 256 are tab, line feed, vertical tab, form feed, carriage return, space
  and the no-break space U+00A0.
\<close>

definition isWhiteSpace :: "char \<Rightarrow> bool" where
  "isWhiteSpace c =
     (c \<in> set [CHR 0x09, CHR 0x0A, CHR 0x0B, CHR 0x0C, CHR 0x0D, CHR 0x20, CHR 0xA0])"

definition js_trim :: "string \<Rightarrow> string" where
  "js_trim s = rev (dropWhile isWhiteSpace (rev (dropWhile isWhiteSpace s)))"

subsection \<open>The title pattern\<close>

text \<open>
  The source has the regular expression literal \<^verbatim>\<open>/\\s*[\\-|]\\s*Ubiquiti.*$/i\<close>, with every
  backslash doubled. Read as JavaScript reads it: a backslash, any number of \<open>s\<close>, one
  character of the class, a backslash, any number of \<open>s\<close>, the word \<open>Ubiquiti\<close>, and
  the rest of the input, which must hold no line terminator (\<open>.\<close> matches none and
  \<open>$\<close> is the end of the input). The class is the backslash and the range from the
  backslash (code 92) to \<open>|\<close> (code 124); with the \<open>i\<close> flag a letter matches in
  either case.
\<close>

definition backslash :: char where
  "backslash = CHR 0x5C"

definition isS :: "char \<Rightarrow> bool" where
  "isS c = (c = CHR ''s'' \<or> c = CHR ''S'')"

definition inClass :: "char \<Rightarrow> bool" where
  "inClass c =
     (c \<in> set ([CHR 0x5C, CHR 0x5D, CHR 0x5E, CHR 0x5F, CHR 0x60]
               @ ''abcdefghijklmnopqrstuvwxyz'' @ [CHR 0x7B, CHR 0x7C]
               @ ''ABCDEFGHIJKLMNOPQRSTUVWXYZ''))"

definition isLineTerminator :: "char \<Rightarrow> bool" where
  "isLineTerminator c = (c = CHR 0x0A \<or> c = CHR 0x0D)"

text \<open>The part of the pattern after its second backslash: \<open>s*Ubiquiti.*$\<close>.\<close>

definition matchesUbiquiti :: "string \<Rightarrow> bool" where
  "matchesUbiquiti r =
     (let r' = dropWhile isS r
      in toLowerCase (take 8 r') = ''ubiquiti''
         \<and> list_all (\<lambda>c. \<not> isLineTerminator c) (drop 8 r'))"

text \<open>
  The whole pattern at the start of \<open>s\<close>. The first \<open>s*\<close> may give back some of the
  \<open>s\<close> it took (an \<open>s\<close> is in the class), so every count \<open>k\<close> up to the length of the
  run is tried.
\<close>

definition matchesPattern :: "string \<Rightarrow> bool" where
  "matchesPattern s =
     (case s of
        [] \<Rightarrow> False
      | c # r \<Rightarrow>
          c = backslash
          \<and> list_ex (\<lambda>k. case drop k r of
                           x # y # r2 \<Rightarrow> inClass x \<and> y = backslash \<and> matchesUbiquiti r2
                         | _ \<Rightarrow> False)
                     [0..<Suc (length (takeWhile isS r))])"

text \<open>\<open>s.replace(pattern, '')\<close>: the leftmost match runs to the end of the input and is cut off.\<close>

fun replacePattern :: "string \<Rightarrow> string" where
  "replacePattern [] = []"
| "replacePattern (c # cs) = (if matchesPattern (c # cs) then [] else c # replacePattern cs)"

subsection \<open>The extractors\<close>

record product =
  p_name :: string
  p_description :: string
  p_price :: string
  p_specifications :: "(string \<times> string) list"
  p_features :: "string list"
  p_url :: string

definition nameSelectors :: "string list" where
  "nameSelectors =
     [''h1.product-title'', ''h1.product-name'', ''h1.product_title'',
      ''h1.product-single__title'', ''h1'']"

fun nameCascade :: "'e cheerio \<Rightarrow> string list \<Rightarrow> string option" where
  "nameCascade api [] = None"
| "nameCascade api (selector # selectors) =
     (let name = js_trim (c_text api (c_first (dollar api selector)))
      in if name \<noteq> [] then Some name else nameCascade api selectors)"

definition extractProductName :: "'e cheerio \<Rightarrow> string" where
  "extractProductName api =
     (case nameCascade api nameSelectors of
        Some name \<Rightarrow> name
      | None \<Rightarrow>
          (let title = replacePattern (js_trim (c_text api (dollar api ''title'')))
           in if title \<noteq> [] then title else ''Unknown Product''))"

definition descriptionSelectors :: "string list" where
  "descriptionSelectors =
     [''.product-description'', ''.product-details__description'',
      ''.product-single__description'', ''.product__description'',
      ''meta[name=\"description\"]'']"

text \<open>
  \<open>desc\<close> is a string or \<open>undefined\<close> (\<open>None\<close>); \<open>desc && desc.trim()\<close> holds when it is
  a string whose trimmed text is not empty.
\<close>

fun descriptionCascade :: "'e cheerio \<Rightarrow> string list \<Rightarrow> string" where
  "descriptionCascade api [] = []"
| "descriptionCascade api (selector # selectors) =
     (let desc = (if startsWith selector ''meta''
                  then c_attr api (dollar api selector) ''content''
                  else Some (c_text api (dollar api selector)))
      in case desc of
           Some d \<Rightarrow>
             if d \<noteq> [] \<and> js_trim d \<noteq> [] then js_trim d
             else descriptionCascade api selectors
         | None \<Rightarrow> descriptionCascade api selectors)"

definition extractProductDescription :: "'e cheerio \<Rightarrow> string" where
  "extractProductDescription api = descriptionCascade api descriptionSelectors"

definition priceSelectors :: "string list" where
  "priceSelectors =
     [''.product-price'', ''.price'', ''.product__price'',
      ''meta[property=\"product:price:amount\"]'', ''[data-product-price]'']"

fun priceCascade :: "'e cheerio \<Rightarrow> string list \<Rightarrow> string" where
  "priceCascade api [] = ''Price not available''"
| "priceCascade api (selector # selectors) =
     (let price = (if startsWith selector ''meta''
                   then c_attr api (dollar api selector) ''content''
                   else Some (c_text api (c_first (dollar api selector))))
      in case price of
           Some p \<Rightarrow>
             if p \<noteq> [] \<and> js_trim p \<noteq> [] then js_trim p
             else priceCascade api selectors
         | None \<Rightarrow> priceCascade api selectors)"

definition extractProductPrice :: "'e cheerio \<Rightarrow> string" where
  "extractProductPrice api = priceCascade api priceSelectors"


text \<open>
  The object \<open>specs\<close> is the list of its own properties in the order they were
  created. \<open>obj_set specs key value\<close> is the assignment \<open>specs[key] = value\<close>: a new
  key goes to the end, a known key keeps its place and takes the new value, and the
  key \<open>__proto__\<close> reaches the setter of \<open>Object.prototype\<close>, which ignores a string.
  \<open>Object.keys(specs).length > 0\<close> is \<open>specs \<noteq> []\<close>.
\<close>

definition obj_set :: "(string \<times> string) list \<Rightarrow> string \<Rightarrow> string \<Rightarrow> (string \<times> string) list" where
  "obj_set obj key val = (if key = ''__proto__'' then obj else AList.update key val obj)"

definition specSelectors :: "string list" where
  "specSelectors =
     [''.product-specifications table'', ''.specifications table'', ''.product-specs table'',
      ''.specs-table'', ''table.specifications'']"

text \<open>The callback of \<open>$table.find('tr').each\<close>, on the object \<open>specs\<close>.\<close>

definition rowStep :: "'e cheerio \<Rightarrow> (string \<times> string) list \<Rightarrow> 'e \<Rightarrow> (string \<times> string) list" where
  "rowStep api specs row =
     (let cells = c_find api [row] ''td, th''
      in if length cells \<ge> 2 then
           (let key = js_trim (c_text api (c_at cells 0));
                val = js_trim (c_text api (c_at cells 1))
            in if key \<noteq> [] \<and> val \<noteq> [] then obj_set specs key val else specs)
         else specs)"

text \<open>The callback of \<open>$terms.each\<close>, given the index \<open>j\<close> and the term.\<close>

definition termStep ::
  "'e cheerio \<Rightarrow> 'e list \<Rightarrow> (string \<times> string) list \<Rightarrow> nat \<times> 'e \<Rightarrow> (string \<times> string) list" where
  "termStep api defs specs jt =
     (let key = js_trim (c_text api [snd jt]);
          val = js_trim (c_text api (c_at defs (fst jt)))
      in if key \<noteq> [] \<and> val \<noteq> [] then obj_set specs key val else specs)"

text \<open>The callback of \<open>$('dl').each\<close>.\<close>

definition listStep :: "'e cheerio \<Rightarrow> (string \<times> string) list \<Rightarrow> 'e \<Rightarrow> (string \<times> string) list" where
  "listStep api specs lst =
     (let terms = c_find api [lst] ''dt'';
          defs = c_find api [lst] ''dd''
      in foldl (termStep api defs) specs (zip [0..<length terms] terms))"

definition dlScan :: "'e cheerio \<Rightarrow> (string \<times> string) list \<Rightarrow> (string \<times> string) list" where
  "dlScan api specs = foldl (listStep api) specs (dollar api ''dl'')"

text \<open>
  The loop over \<open>specSelectors\<close>, with the rest of the function (the scan of the
  \<open>dl\<close> lists and the final \<open>return specs\<close>) where the loop ends.
\<close>

fun specLoop :: "'e cheerio \<Rightarrow> (string \<times> string) list \<Rightarrow> string list \<Rightarrow> (string \<times> string) list" where
  "specLoop api specs [] = dlScan api specs"
| "specLoop api specs (selector # selectors) =
     (let table = dollar api selector
      in if length table > 0 then
           (let specs' = foldl (rowStep api) specs (c_find api table ''tr'')
            in if specs' \<noteq> [] then specs' else specLoop api specs' selectors)
         else specLoop api specs selectors)"

definition extractProductSpecifications :: "'e cheerio \<Rightarrow> (string \<times> string) list" where
  "extractProductSpecifications api = specLoop api [] specSelectors"

definition featureSelectors :: "string list" where
  "featureSelectors =
     [''.product-features ul li'', ''.features ul li'', ''.product-highlights li'',
      ''.key-features li'']"

definition featureStep :: "'e cheerio \<Rightarrow> string list \<Rightarrow> 'e \<Rightarrow> string list" where
  "featureStep api features feature =
     (let text = js_trim (c_text api [feature])
      in if text \<noteq> [] then features @ [text] else features)"

fun featureLoop :: "'e cheerio \<Rightarrow> string list \<Rightarrow> string list \<Rightarrow> string list" where
  "featureLoop api features [] = features"
| "featureLoop api features (selector # selectors) =
     (let found = dollar api selector
      in if length found > 0 then
           (let features' = foldl (featureStep api) features found
            in if length features' > 0 then features' else featureLoop api features' selectors)
         else featureLoop api features selectors)"

definition extractProductFeatures :: "'e cheerio \<Rightarrow> string list" where
  "extractProductFeatures api = featureLoop api [] featureSelectors"

text \<open>\<open>api\<close> is \<open>cheerio.load(html)\<close>.\<close>

definition extractProductInfo :: "'e cheerio \<Rightarrow> string \<Rightarrow> product" where
  "extractProductInfo api url =
     \<lparr>p_name = extractProductName api,
      p_description = extractProductDescription api,
      p_price = extractProductPrice api,
      p_specifications = extractProductSpecifications api,
      p_features = extractProductFeatures api,
      p_url = url\<rparr>"


section \<open>config.js and crawler.js\<close>

record config =
  baseUrl :: string
  maxPages :: nat
  patterns_include :: "string list"
  patterns_exclude :: "string list"

definition store_config :: config where
  "store_config =
     \<lparr>baseUrl = ''https://store.ui.com/us/'',
      maxPages = 1000,
      patterns_include = [''/us/products/'', ''/us/collections/''],
      patterns_exclude = [''/cart'', ''/account'', ''/search'', ''/pages/'', ''/policies/'']\<rparr>"

text \<open>
  The fields of \<open>UbiquitiCrawler\<close> that the crawl uses. The two \<open>Set\<close>s are lists in
  insertion order (see \<open>set_add\<close>); \<open>urlsToVisit\<close> is the array.
\<close>

record crawler =
  visitedUrls :: "string list"
  productUrls :: "string list"
  urlsToVisit :: "string list"

definition new_crawler :: crawler where
  "new_crawler = \<lparr>visitedUrls = [], productUrls = [], urlsToVisit = []\<rparr>"

text \<open>
  What a run does, in order: \<open>Shift u q\<close> is \<open>urlsToVisit.shift()\<close> returning \<open>u\<close> and
  leaving the array \<open>q\<close>; \<open>Skip\<close> is the \<open>continue\<close>; \<open>Visit u\<close> is the call
  \<open>processPage(u)\<close> and \<open>PageError u\<close> its \<open>catch\<close>; \<open>AddProduct l\<close> is
  \<open>productUrls.add(l)\<close>; \<open>Push l q\<close> is \<open>urlsToVisit.push(l)\<close> leaving the array \<open>q\<close>;
  \<open>Delay\<close> is the awaited \<open>setTimeout\<close>.
\<close>

datatype event =
    Shift string "string list"
  | Skip
  | Visit string
  | PageError string
  | AddProduct string
  | Push string "string list"
  | Delay

text \<open>The body of \<open>for (const link of links)\<close>, on the crawler and the log.\<close>

definition processLink :: "config \<Rightarrow> crawler \<times> event list \<Rightarrow> string \<Rightarrow> crawler \<times> event list" where
  "processLink cfg sl link =
     (let st = fst sl; log = snd sl
      in if \<not> startsWith link (baseUrl cfg) then (st, log)
         else if list_ex (\<lambda>pattern. js_includes link pattern) (patterns_exclude cfg) then (st, log)
         else if js_includes link ''/products/'' then
           (st\<lparr>productUrls := set_add (productUrls st) link\<rparr>, log @ [AddProduct link])
         else if list_ex (\<lambda>pattern. js_includes link pattern) (patterns_include cfg) then
           (if link \<notin> set (visitedUrls st) \<and> link \<notin> set (urlsToVisit st) then
              (st\<lparr>urlsToVisit := urlsToVisit st @ [link]\<rparr>,
               log @ [Push link (urlsToVisit st @ [link])])
            else (st, log))
         else (st, log))"

text \<open>
  The browser is the argument \<open>web\<close>: \<open>web k u\<close> is what the \<open>k\<close>-th page load, of the
  URL \<open>u\<close>, gives: \<open>Some links\<close>, the \<open>href\<close>s of the anchors of the page, or \<open>None\<close> when
  a step before the link loop throws.
\<close>

type_synonym web = "nat \<Rightarrow> string \<Rightarrow> string list option"

definition processPage :: "web \<Rightarrow> config \<Rightarrow> nat \<Rightarrow> string \<Rightarrow> crawler \<times> event list \<Rightarrow> crawler \<times> event list" where
  "processPage web cfg k u sl =
     (case web k u of
        None \<Rightarrow> (fst sl, snd sl @ [Visit u, PageError u])
      | Some links \<Rightarrow> foldl (processLink cfg) (fst sl, snd sl @ [Visit u]) links)"

text \<open>One turn of the \<open>while\<close> loop, entered with a frontier that is not empty.\<close>

definition iteration :: "web \<Rightarrow> config \<Rightarrow> crawler \<times> nat \<times> event list \<Rightarrow> crawler \<times> nat \<times> event list" where
  "iteration web cfg s =
     (let st = fst s; pageCount = fst (snd s); log = snd (snd s);
          u = hd (urlsToVisit st);
          st1 = st\<lparr>urlsToVisit := tl (urlsToVisit st)\<rparr>;
          log1 = log @ [Shift u (urlsToVisit st1)]
      in if u \<in> set (visitedUrls st1) then (st1, pageCount, log1 @ [Skip])
         else
           (let st2 = st1\<lparr>visitedUrls := set_add (visitedUrls st1) u\<rparr>;
                sl = processPage web cfg pageCount u (st2, log1)
            in (fst sl, pageCount + 1, snd sl @ [Delay])))"

function crawl_loop :: "web \<Rightarrow> config \<Rightarrow> crawler \<times> nat \<times> event list \<Rightarrow> crawler \<times> nat \<times> event list" where
  "crawl_loop web cfg s =
     (if length (urlsToVisit (fst s)) > 0 \<and> fst (snd s) < maxPages cfg
      then crawl_loop web cfg (iteration web cfg s)
      else s)"
  by pat_completeness auto
termination
proof (relation "measures [\<lambda>(web, cfg, s). maxPages cfg - fst (snd s),
                           \<lambda>(web, cfg, s). length (urlsToVisit (fst s))]")
  show "wf (measures [\<lambda>(web, cfg, s). maxPages cfg - fst (snd s),
                      \<lambda>(web :: web, cfg, s). length (urlsToVisit (fst s))])"
    by simp
next
  fix web :: web and cfg :: config and s :: "crawler \<times> nat \<times> event list"
  assume go: "0 < length (urlsToVisit (fst s)) \<and> fst (snd s) < maxPages cfg"
  show "((web, cfg, iteration web cfg s), (web, cfg, s))
          \<in> measures [\<lambda>(web, cfg, s). maxPages cfg - fst (snd s),
                       \<lambda>(web, cfg, s). length (urlsToVisit (fst s))]"
  proof (cases "hd (urlsToVisit (fst s)) \<in> set (visitedUrls (fst s))")
    case True
    with go show ?thesis
      by (simp add: iteration_def Let_def)
  next
    case False
    with go show ?thesis
      by (simp add: iteration_def Let_def) arith
  qed
qed

declare crawl_loop.simps [simp del]

text \<open>
  \<open>start()\<close> on a crawler in the state \<open>st\<close>: the seed, the crawl loop, and the list
  \<open>[...this.productUrls]\<close> whose every element is handed to \<open>processProductPage\<close> once
  by the \<open>map\<close>. The result is the crawler after the loop, the log, and that list.
\<close>

definition start :: "web \<Rightarrow> config \<Rightarrow> crawler \<Rightarrow> crawler \<times> event list \<times> string list" where
  "start web cfg st =
     (let st1 = st\<lparr>urlsToVisit := urlsToVisit st @ [baseUrl cfg]\<rparr>;
          s = crawl_loop web cfg (st1, 0, [Push (baseUrl cfg) (urlsToVisit st1)])
      in (fst s, snd (snd s), productUrls (fst s)))"

definition run_log :: "crawler \<times> event list \<times> string list \<Rightarrow> event list" where
  "run_log r = fst (snd r)"

definition run_productPages :: "crawler \<times> event list \<times> string list \<Rightarrow> string list" where
  "run_productPages r = snd (snd r)"

text \<open>Readings of a log: the pages fetched, in order; the frontier after each change;
  the product links added, in order; the number of delays.\<close>

definition fetched :: "event list \<Rightarrow> string list" where
  "fetched log = concat (map (\<lambda>e. case e of Visit u \<Rightarrow> [u] | _ \<Rightarrow> []) log)"

definition frontiers :: "event list \<Rightarrow> string list list" where
  "frontiers log =
     concat (map (\<lambda>e. case e of Shift u q \<Rightarrow> [q] | Push l q \<Rightarrow> [q] | _ \<Rightarrow> []) log)"

definition discovered :: "event list \<Rightarrow> string list" where
  "discovered log = concat (map (\<lambda>e. case e of AddProduct l \<Rightarrow> [l] | _ \<Rightarrow> []) log)"

definition delays :: "event list \<Rightarrow> nat" where
  "delays log = length (filter (\<lambda>e. e = Delay) log)"


section \<open>Reference definitions\<close>

text \<open>
  The classifier as the specification words it. \<open>titleCase\<close> reads the segment once:
  a hyphen becomes a space and the letter at the start of a word is capitalized.
  \<open>firstCollection\<close> is the segment after the first \<open>collections\<close> segment, when there
  is one and it is not empty; \<open>anyCollection\<close> is the segment after the first
  \<open>collections\<close> segment that has a non-empty segment after it.
\<close>

fun titleCase_from :: "bool \<Rightarrow> string \<Rightarrow> string" where
  "titleCase_from atStart [] = []"
| "titleCase_from atStart (c # cs) =
     (if c = CHR ''-'' then CHR '' '' # titleCase_from True cs
      else (if atStart then toUpperChar c else c) # titleCase_from False cs)"

definition titleCase :: "string \<Rightarrow> string" where
  "titleCase slug = titleCase_from True slug"

definition firstCollection :: "string list \<Rightarrow> string option" where
  "firstCollection segments =
     (case dropWhile (\<lambda>seg. seg \<noteq> ''collections'') segments of
        c # seg # rest \<Rightarrow> if seg \<noteq> [] then Some seg else None
      | _ \<Rightarrow> None)"

fun anyCollection :: "string list \<Rightarrow> string option" where
  "anyCollection (a # b # rest) =
     (if a = ''collections'' \<and> b \<noteq> [] then Some b else anyCollection (b # rest))"
| "anyCollection segments = None"

definition nameCategory :: "string \<Rightarrow> string list \<Rightarrow> string" where
  "nameCategory productName categories =
     (case List.find (\<lambda>category. sublist (toLowerCase category) (toLowerCase productName))
             categories of
        Some category \<Rightarrow> category
      | None \<Rightarrow> ''Other'')"

definition classifier_first :: "string \<Rightarrow> string \<Rightarrow> string list \<Rightarrow> string" where
  "classifier_first productName url categories =
     (case firstCollection (js_split CHR ''/'' url) of
        Some slug \<Rightarrow> titleCase slug
      | None \<Rightarrow> nameCategory productName categories)"

definition classifier_any :: "string \<Rightarrow> string \<Rightarrow> string list \<Rightarrow> string" where
  "classifier_any productName url categories =
     (case anyCollection (js_split CHR ''/'' url) of
        Some slug \<Rightarrow> titleCase slug
      | None \<Rightarrow> nameCategory productName categories)"

text \<open>
  An attribute value of the markup: text between quotes after \<open>href=\<close> or \<open>src=\<close>.
\<close>

definition attribute_value :: "string \<Rightarrow> string \<Rightarrow> bool" where
  "attribute_value html raw \<longleftrightarrow>
     (\<exists>name q q'. name \<in> {''href'', ''src''} \<and> isQuote q \<and> isQuote q'
        \<and> sublist (name @ ''='' @ [q] @ raw @ [q']) html)"

text \<open>
  Specification extraction as the specification words it. A row gives an entry when
  it has two cells or more and the trimmed texts of the first two are not empty; a
  term gives an entry with the definition at its own index, when both trimmed texts
  are not empty. \<open>putAll\<close> makes the map of a list of entries, a later entry
  replacing an earlier one with the same key. The result is the map of the entries of
  the first table selector that yields an entry, and the map of the entries of the
  \<open>dl\<close> lists when no table selector yields one.
\<close>

definition rowEntry :: "'e cheerio \<Rightarrow> 'e \<Rightarrow> (string \<times> string) option" where
  "rowEntry api row =
     (let cells = c_find api [row] ''td, th''
      in if length cells < 2 then None
         else if js_trim (c_text api [cells ! 0]) = [] \<or> js_trim (c_text api [cells ! 1]) = []
         then None
         else Some (js_trim (c_text api [cells ! 0]), js_trim (c_text api [cells ! 1])))"

definition tableEntries :: "'e cheerio \<Rightarrow> string \<Rightarrow> (string \<times> string) list" where
  "tableEntries api selector =
     List.map_filter (rowEntry api) (c_find api (dollar api selector) ''tr'')"

definition termEntry :: "'e cheerio \<Rightarrow> 'e list \<Rightarrow> 'e list \<Rightarrow> nat \<Rightarrow> (string \<times> string) option" where
  "termEntry api terms defs i =
     (let key = js_trim (c_text api [terms ! i]);
          val = (if i < length defs then js_trim (c_text api [defs ! i]) else [])
      in if key = [] \<or> val = [] then None else Some (key, val))"

definition listEntries :: "'e cheerio \<Rightarrow> 'e \<Rightarrow> (string \<times> string) list" where
  "listEntries api lst =
     (let terms = c_find api [lst] ''dt''; defs = c_find api [lst] ''dd''
      in List.map_filter (termEntry api terms defs) [0..<length terms])"

definition dlEntries :: "'e cheerio \<Rightarrow> (string \<times> string) list" where
  "dlEntries api = concat (map (listEntries api) (dollar api ''dl''))"

definition putAll :: "(string \<times> string) list \<Rightarrow> (string \<times> string) list \<Rightarrow> (string \<times> string) list" where
  "putAll m entries = foldl (\<lambda>m kv. AList.update (fst kv) (snd kv) m) m entries"

definition claimed_specifications :: "'e cheerio \<Rightarrow> (string \<times> string) list" where
  "claimed_specifications api =
     (case List.find (\<lambda>selector. tableEntries api selector \<noteq> []) specSelectors of
        Some selector \<Rightarrow> putAll [] (tableEntries api selector)
      | None \<Rightarrow> putAll [] (dlEntries api))"

text \<open>
  \<open>assignAll\<close> is the code's own way with a list of entries: the assignments
  \<open>specs[key] = value\<close>, in order.
\<close>

definition assignAll :: "(string \<times> string) list \<Rightarrow> (string \<times> string) list \<Rightarrow> (string \<times> string) list" where
  "assignAll obj entries = foldl (\<lambda>obj kv. obj_set obj (fst kv) (snd kv)) obj entries"

text \<open>
  Pairs of trimmed texts: every key and every value is the trimmed text of an element
  of the page and is not empty.
\<close>

definition trimmed_pairs :: "'e cheerio \<Rightarrow> (string \<times> string) list \<Rightarrow> bool" where
  "trimmed_pairs api kvs \<longleftrightarrow>
     (\<forall>kv\<in>set kvs. fst kv \<noteq> [] \<and> snd kv \<noteq> []
        \<and> (\<exists>e1 e2. fst kv = js_trim (c_text api [e1]) \<and> snd kv = js_trim (c_text api [e2])))"


section \<open>Invariants of the crawl\<close>

text \<open>
  Each is a property of the crawler and the log that every turn of the loop keeps.
  \<open>fetch_inv V\<close>: the pages fetched are visited, are not in \<open>V\<close> and do not repeat.
  \<open>frontier_inv\<close>: no frontier, now or logged, holds a URL twice.
  \<open>product_inv\<close>: the product set has no repeats and holds every link added to it.
  \<open>noskip_inv\<close>: no URL of the frontier is visited and no turn was skipped.
\<close>

definition fetch_inv :: "string set \<Rightarrow> crawler \<times> nat \<times> event list \<Rightarrow> bool" where
  "fetch_inv V s \<longleftrightarrow>
     V \<subseteq> set (visitedUrls (fst s)) \<and> set (fetched (snd (snd s))) \<subseteq> set (visitedUrls (fst s))
     \<and> set (fetched (snd (snd s))) \<inter> V = {} \<and> distinct (fetched (snd (snd s)))"

definition frontier_inv :: "crawler \<times> event list \<Rightarrow> bool" where
  "frontier_inv sl \<longleftrightarrow>
     distinct (urlsToVisit (fst sl)) \<and> (\<forall>q\<in>set (frontiers (snd sl)). distinct q)"

definition product_inv :: "crawler \<times> event list \<Rightarrow> bool" where
  "product_inv sl \<longleftrightarrow>
     distinct (productUrls (fst sl)) \<and> set (discovered (snd sl)) \<subseteq> set (productUrls (fst sl))"

definition noskip_inv :: "crawler \<times> event list \<Rightarrow> bool" where
  "noskip_inv sl \<longleftrightarrow>
     distinct (urlsToVisit (fst sl))
     \<and> set (urlsToVisit (fst sl)) \<inter> set (visitedUrls (fst sl)) = {}
     \<and> Skip \<notin> set (snd sl)"


section \<open>Sample inputs\<close>

text \<open>
  A small store: the start page links to a collection (twice), to a product and to
  another site; the collection links to the product and back to the start page.
  Every other page fails to load. \<open>web_down\<close> is a store of which no page loads.
\<close>

definition sample_config :: config where
  "sample_config =
     \<lparr>baseUrl = ''http://s/'', maxPages = 5,
      patterns_include = [''/c/''], patterns_exclude = [''/cart'']\<rparr>"

definition sample_web :: web where
  "sample_web k u =
     (if u = ''http://s/'' then
        Some [''http://s/c/a'', ''http://s/products/p'', ''http://s/c/a'', ''http://x/'']
      else if u = ''http://s/c/a'' then
        Some [''http://s/products/p'', ''http://s/'']
      else None)"

definition web_down :: web where
  "web_down k u = None"

text \<open>
  A page whose only element of interest is
  \<^verbatim>\<open><title>Widget - Ubiquiti Store</title>\<close>; its elements are numbered.
\<close>

definition title_page :: "nat cheerio" where
  "title_page =
     \<lparr>dollar = (\<lambda>selector. if selector = ''title'' then [0] else []),
      find_in = (\<lambda>c selector. []),
      text_in = (\<lambda>c. if c = [0] then ''Widget - Ubiquiti Store'' else []),
      attr_in = (\<lambda>c attr. None)\<rparr>"

text \<open>
  A page with one table of class \<open>specs-table\<close> (element 0) of three rows (elements
  1, 2, 3) of two cells each, with the texts \<open>Key1\<close>, \<open>Val1\<close>; empty, empty;
  \<open>Key2\<close>, \<open>Val2\<close> (elements 11, 12, 21, 22, 31, 32).
\<close>

definition table_page :: "nat cheerio" where
  "table_page =
     \<lparr>dollar = (\<lambda>selector. if selector = ''.specs-table'' then [0] else []),
      find_in = (\<lambda>c selector.
         if c = [0] \<and> selector = ''tr'' then [1, 2, 3]
         else if c = [1] \<and> selector = ''td, th'' then [11, 12]
         else if c = [2] \<and> selector = ''td, th'' then [21, 22]
         else if c = [3] \<and> selector = ''td, th'' then [31, 32]
         else []),
      text_in = (\<lambda>c.
         if c = [11] then ''Key1'' else if c = [12] then ''Val1''
         else if c = [31] then ''Key2'' else if c = [32] then ''Val2''
         else []),
      attr_in = (\<lambda>c attr. None)\<rparr>"


text \<open>
  What the URL class answers for the one attribute value of the page
  \<^verbatim>\<open><a href="download?file=manual.pdf">Manual</a>\<close> of the product
  \<open>https://store.ui.com/us/products/widget\<close>; the table has no other entry.
\<close>

definition sample_URL :: "string \<Rightarrow> string \<Rightarrow> string option" where
  "sample_URL url base =
     (if url = ''download?file=manual.pdf'' \<and> base = ''https://store.ui.com/us/products/widget''
      then Some ''https://store.ui.com/us/products/download?file=manual.pdf''
      else None)"

text \<open>
  A page with one table of class \<open>specs-table\<close> (element 0) whose only row (element 1)
  has the cells \<open>__proto__\<close> and \<open>x\<close> (elements 11, 12), and one \<open>dl\<close> list (element 5)
  with the term \<open>A\<close> and the definition \<open>1\<close> (elements 51, 52).
\<close>

definition proto_page :: "nat cheerio" where
  "proto_page =
     \<lparr>dollar = (\<lambda>selector.
         if selector = ''.specs-table'' then [0] else if selector = ''dl'' then [5] else []),
      find_in = (\<lambda>c selector.
         if c = [0] \<and> selector = ''tr'' then [1]
         else if c = [1] \<and> selector = ''td, th'' then [11, 12]
         else if c = [5] \<and> selector = ''dt'' then [51]
         else if c = [5] \<and> selector = ''dd'' then [52]
         else []),
      text_in = (\<lambda>c.
         if c = [11] then ''__proto__'' else if c = [12] then ''x''
         else if c = [51] then ''A'' else if c = [52] then ''1''
         else []),
      attr_in = (\<lambda>c attr. None)\<rparr>"

text \<open>
  A page with one table of class \<open>specs-table\<close> (element 0) of two rows (elements 1, 2):
  the cells of the first hold \<open>Key1\<close> and a no-break space (\<^verbatim>\<open>&nbsp;\<close>), those of
  the second hold \<open>Key2\<close> and \<open>Val2\<close> with spaces and a line feed around them.
\<close>

definition blank_page :: "nat cheerio" where
  "blank_page =
     \<lparr>dollar = (\<lambda>selector. if selector = ''.specs-table'' then [0] else []),
      find_in = (\<lambda>c selector.
         if c = [0] \<and> selector = ''tr'' then [1, 2]
         else if c = [1] \<and> selector = ''td, th'' then [11, 12]
         else if c = [2] \<and> selector = ''td, th'' then [21, 22]
         else []),
      text_in = (\<lambda>c.
         if c = [11] then ''Key1'' else if c = [12] then [CHR 0xA0]
         else if c = [21] then '' Key2 '' else if c = [22] then [CHR 0x0A] @ ''  Val2''
         else []),
      attr_in = (\<lambda>c attr. None)\<rparr>"

text \<open>
  A store whose start page links to one collection, crawled with a page cap of one.
\<close>

definition capped_config :: config where
  "capped_config =
     \<lparr>baseUrl = ''http://s/'', maxPages = 1,
      patterns_include = [''/c/''], patterns_exclude = [''/cart'']\<rparr>"

definition capped_web :: web where
  "capped_web k u = (if u = ''http://s/'' then Some [''http://s/c/d''] else None)"


section \<open>Properties of the string functions\<close>

lemma startsWith_prefix: "startsWith s p \<longleftrightarrow> prefix p s"
  by (induction s p rule: startsWith.induct) auto

lemma endsWith_suffix: "endsWith s p \<longleftrightarrow> suffix p s"
  by (simp add: endsWith_def startsWith_prefix suffix_to_prefix)

lemma js_includes_sublist: "js_includes s p \<longleftrightarrow> sublist p s"
  by (induction s) (auto simp: startsWith_prefix sublist_Cons_right)

lemma js_split_not_Nil: "js_split d s \<noteq> []"
  by (induction s) (auto split: list.splits)

lemma js_join_concat: "js_join sep (w # ws) = w @ concat (map (\<lambda>v. sep @ v) ws)"
  by (induction ws arbitrary: w) auto

lemma indexOf_from_takeWhile:
  "indexOf_from i xs x = (if x \<in> set xs then i + int (length (takeWhile (\<lambda>y. y \<noteq> x) xs)) else -1)"
  by (induction xs arbitrary: i) auto

lemma takeWhile_neq_length: "x \<in> set xs \<Longrightarrow> length (takeWhile (\<lambda>y. y \<noteq> x) xs) < length xs"
  by (induction xs) auto

lemma dropWhile_neq_Nil: "x \<notin> set xs \<Longrightarrow> dropWhile (\<lambda>y. y \<noteq> x) xs = []"
  by (induction xs) auto


section \<open>The category classifier\<close>

lemma titleCase_split:
  "(case js_split CHR ''-'' s of
      [] \<Rightarrow> []
    | p # ps \<Rightarrow> (if b then capitalize p else p) @ concat (map (\<lambda>v. '' '' @ capitalize v) ps))
   = titleCase_from b s"
proof (induction s arbitrary: b)
  case Nil
  show ?case by (simp add: capitalize_def)
next
  case (Cons c cs)
  show ?case
  proof (cases "c = CHR ''-''")
    case True
    with Cons [of True] js_split_not_Nil [of "CHR ''-''" cs] show ?thesis
      by (auto simp: capitalize_def split: list.splits)
  next
    case False
    with Cons [of False] js_split_not_Nil [of "CHR ''-''" cs] show ?thesis
      by (auto simp: capitalize_def split: list.splits)
  qed
qed

lemma join_capitalize_titleCase:
  "js_join '' '' (map capitalize (js_split CHR ''-'' s)) = titleCase s"
proof -
  obtain p ps where sp: "js_split CHR ''-'' s = p # ps"
    using js_split_not_Nil [of "CHR ''-''" s] by (cases "js_split CHR ''-'' s") auto
  with titleCase_split [where s = s and b = True] show ?thesis
    by (simp add: js_join_concat titleCase_def comp_def)
qed

lemma matchCategory_find: "matchCategory productName categories = nameCategory productName categories"
  by (induction categories) (auto simp: nameCategory_def js_includes_sublist)

lemma after_first_index:
  "(case dropWhile (\<lambda>y. y \<noteq> x) xs of
      c # seg # rest \<Rightarrow> if seg \<noteq> [] then Some seg else None
    | _ \<Rightarrow> None) =
     (if indexOf xs x \<noteq> -1 \<and> indexOf xs x + 1 < int (length xs)
         \<and> xs ! nat (indexOf xs x + 1) \<noteq> []
      then Some (xs ! nat (indexOf xs x + 1)) else None)"
proof (cases "x \<in> set xs")
  case False
  then show ?thesis
    by (simp add: dropWhile_neq_Nil indexOf_def indexOf_from_takeWhile)
next
  case True
  define n where "n = length (takeWhile (\<lambda>y. y \<noteq> x) xs)"
  have idx: "indexOf xs x = int n"
    using True by (simp add: indexOf_def indexOf_from_takeWhile n_def)
  have nlt: "n < length xs"
    using True by (simp add: n_def takeWhile_neq_length)
  have dw: "dropWhile (\<lambda>y. y \<noteq> x) xs = xs ! n # drop (Suc n) xs"
    using Cons_nth_drop_Suc [OF nlt] by (simp add: n_def dropWhile_eq_drop)
  have nat_idx: "nat (int n + 1) = Suc n" by simp
  show ?thesis
  proof (cases "Suc n < length xs")
    case False
    then have "drop (Suc n) xs = []" by simp
    with False show ?thesis
      unfolding dw idx by simp
  next
    case l: True
    have "drop (Suc n) xs = xs ! Suc n # drop (Suc (Suc n)) xs"
      using Cons_nth_drop_Suc [OF l] by simp
    with l show ?thesis
      unfolding dw idx nat_idx by simp
  qed
qed

lemma firstCollection_index:
  "firstCollection xs =
     (if indexOf xs ''collections'' \<noteq> -1 \<and> indexOf xs ''collections'' + 1 < int (length xs)
         \<and> xs ! nat (indexOf xs ''collections'' + 1) \<noteq> []
      then Some (xs ! nat (indexOf xs ''collections'' + 1)) else None)"
  unfolding firstCollection_def by (rule after_first_index)

text \<open>
  Claim C2, as the code has it. For every product name, URL and category list,
  \<open>determineCategory\<close> equals the reference classifier that looks at the first
  \<open>collections\<close> segment of the URL split on \<open>/\<close>: when that segment is followed by a
  segment that is not empty, the result is that segment in title case, whatever the
  product name; otherwise it is the first category, in list order, whose lower-cased
  name is a substring of the lower-cased product name; otherwise it is \<open>Other\<close>.
\<close>

theorem determineCategory_refines:
  "determineCategory productName url categories = classifier_first productName url categories"
  by (simp add: determineCategory_def classifier_first_def Let_def firstCollection_index
      join_capitalize_titleCase matchCategory_find)

text \<open>
  The witness: a product under \<open>/collections/door-access/\<close> is classified
  \<open>Door Access\<close>, whatever its name.
\<close>

theorem determineCategory_refines_witness:
  "determineCategory ''G4 Dome'' ''https://store.ui.com/us/collections/door-access/products/g4''
     [''Networks'', ''Cameras''] = ''Door Access''"
  using determineCategory_refines [of "''G4 Dome''" "''https://store.ui.com/us/collections/door-access/products/g4''" "[''Networks'', ''Cameras'']"]
  by (simp add: classifier_first_def firstCollection_def titleCase_def toUpperChar_def)

text \<open>
  Claim C2 as it is stated lets any \<open>collections\<close> segment with a non-empty segment
  after it decide (\<open>classifier_any\<close>). The code looks at the first \<open>collections\<close>
  segment only: when that one is followed by an empty segment it goes on to the
  product name, although a later \<open>collections\<close> segment is followed by \<open>cameras\<close>.
\<close>

theorem determineCategory_collections_counterexample:
  "determineCategory ''Widget'' ''https://store.ui.com/us/collections//collections/cameras''
     [''Networks'', ''Cameras''] = ''Other''
   \<and> classifier_any ''Widget'' ''https://store.ui.com/us/collections//collections/cameras''
     [''Networks'', ''Cameras''] = ''Cameras''"
  by (simp add: determineCategory_def indexOf_def toLowerCase_def toLowerChar_def
      classifier_any_def titleCase_def toUpperChar_def)


section \<open>The link extractor\<close>

lemma set_foldl_set_add: "set (foldl set_add acc xs) = set acc \<union> set xs"
  by (induction xs arbitrary: acc) (auto simp: set_add_def)

lemma distinct_foldl_set_add: "distinct acc \<Longrightarrow> distinct (foldl set_add acc xs)"
  by (induction xs arbitrary: acc) (auto simp: set_add_def)

lemma distinct_new_Set: "distinct (new_Set xs)"
  by (simp add: new_Set_def distinct_foldl_set_add)

lemma set_new_Set: "set (new_Set xs) = set xs"
  by (simp add: new_Set_def set_foldl_set_add)

lemma link_loop_sound:
  "u \<in> set (link_loop newURL exts base ms links) \<Longrightarrow>
   u \<in> set links \<or>
   (\<exists>raw\<in>set ms. (\<exists>ext\<in>set exts. suffix ext (toLowerCase raw)) \<and> newURL raw base = Some u)"
proof (induction ms arbitrary: links)
  case Nil
  then show ?case by simp
next
  case (Cons m ms)
  show ?case
  proof (cases "m \<noteq> [] \<and> list_ex (\<lambda>ext. endsWith (toLowerCase m) ext) exts")
    case False
    with Cons.prems have "u \<in> set (link_loop newURL exts base ms links)"
      by (auto simp: Let_def split: if_splits)
    from Cons.IH [OF this] show ?thesis by auto
  next
    case True
    then have ext: "\<exists>ext\<in>set exts. suffix ext (toLowerCase m)"
      by (auto simp: list_ex_iff endsWith_suffix)
    show ?thesis
    proof (cases "newURL m base")
      case None
      with True Cons.prems have "u \<in> set (link_loop newURL exts base ms links)"
        by (simp add: Let_def)
      from Cons.IH [OF this] show ?thesis by auto
    next
      case (Some a)
      with True Cons.prems have "u \<in> set (link_loop newURL exts base ms (links @ [a]))"
        by (simp add: Let_def)
      from Cons.IH [OF this] Some ext show ?thesis by auto
    qed
  qed
qed

lemma match_attr_shape:
  assumes "match_attr name s = Some (v, rest)"
  shows "\<exists>q q'. isQuote q \<and> isQuote q' \<and> s = name @ ''='' @ [q] @ v @ [q'] @ rest
           \<and> v \<noteq> [] \<and> (\<forall>c\<in>set v. \<not> isQuote c)"
proof -
  from assms have pre: "prefix (name @ ''='') s"
    by (auto simp: match_attr_def startsWith_prefix split: if_splits)
  then obtain t where s: "s = (name @ ''='') @ t" by (auto simp: prefix_def)
  then have d: "drop (length name + 1) s = t" by simp
  from assms d obtain q r where t: "t = q # r" and q: "isQuote q"
    and v: "v = takeWhile (\<lambda>c. \<not> isQuote c) r" and vn: "v \<noteq> []"
    and rn: "dropWhile (\<lambda>c. \<not> isQuote c) r \<noteq> []"
    and rest: "rest = tl (dropWhile (\<lambda>c. \<not> isQuote c) r)"
    by (auto simp: match_attr_def Let_def split: if_splits list.splits)
  from rn obtain q' where dw: "dropWhile (\<lambda>c. \<not> isQuote c) r = q' # rest"
    using rest by (cases "dropWhile (\<lambda>c. \<not> isQuote c) r") auto
  then have q': "isQuote q'"
    by (metis (mono_tags, lifting) hd_dropWhile list.sel(1) rn)
  have "r = v @ q' # rest"
    using v dw by (metis takeWhile_dropWhile_id)
  moreover have "\<forall>c\<in>set v. \<not> isQuote c"
    unfolding v by (auto dest: set_takeWhileD)
  ultimately show ?thesis using s t q q' vn by auto
qed

lemma match_here_shape:
  assumes "match_here s = Some (v, rest)"
  shows "\<exists>name q q'. name \<in> {''href'', ''src''} \<and> isQuote q \<and> isQuote q'
           \<and> s = name @ ''='' @ [q] @ v @ [q'] @ rest \<and> v \<noteq> [] \<and> (\<forall>c\<in>set v. \<not> isQuote c)"
proof (cases "match_attr ''href'' s")
  case (Some m)
  with assms have "match_attr ''href'' s = Some (v, rest)" by (simp add: match_here_def)
  from match_attr_shape [OF this] show ?thesis by blast
next
  case None
  with assms have "match_attr ''src'' s = Some (v, rest)" by (simp add: match_here_def)
  from match_attr_shape [OF this] show ?thesis by blast
qed

lemma regex_exec_all_sound:
  "raw \<in> set (regex_exec_all s) \<Longrightarrow> attribute_value s raw"
proof (induction s rule: regex_exec_all.induct)
  case (1 s)
  show ?case
  proof (cases s)
    case Nil
    with "1.prems" show ?thesis by simp
  next
    case (Cons c cs)
    show ?thesis
    proof (cases "match_here s")
      case None
      with Cons "1.prems" have "raw \<in> set (regex_exec_all cs)" by simp
      from "1.IH"(1) [OF Cons None this] have "attribute_value cs raw" .
      then show ?thesis
        unfolding attribute_value_def Cons by (meson sublist_Cons_right)
    next
      case (Some m)
      obtain v rest where m: "m = (v, rest)" by (cases m)
      from match_here_shape [OF Some [unfolded m]]
      obtain name q q' where nm: "name \<in> {''href'', ''src''}" "isQuote q" "isQuote q'"
        and s: "s = name @ ''='' @ [q] @ v @ [q'] @ rest" by blast
      from Cons Some m "1.prems" have "raw = v \<or> raw \<in> set (regex_exec_all rest)" by simp
      then show ?thesis
      proof
        assume "raw = v"
        moreover have "sublist (name @ ''='' @ [q] @ v @ [q']) s"
          by (subst s, rule prefix_imp_sublist) simp
        ultimately show ?thesis unfolding attribute_value_def using nm by blast
      next
        assume "raw \<in> set (regex_exec_all rest)"
        from "1.IH"(2) [OF Cons Some m [symmetric] this] have "attribute_value rest raw" .
        moreover have "suffix rest s"
          by (subst s) (simp add: suffix_def)
        ultimately show ?thesis
          unfolding attribute_value_def by (meson sublist_order.order.trans suffix_imp_sublist)
      qed
    qed
  qed
qed

text \<open>
  Claim C1, as the code has it. For every resolver, markup, list of extensions and base
  URL, the output of \<open>extractLinks\<close> has no duplicates, and each URL in it is what the
  resolver returns for an \<open>href\<close> or \<open>src\<close> attribute value of the markup whose own
  lower-cased text ends in one of the extensions.
\<close>

theorem extractLinks_sound:
  "distinct (extractLinks newURL html exts base) \<and>
   (\<forall>u\<in>set (extractLinks newURL html exts base).
      \<exists>raw. attribute_value html raw \<and> (\<exists>ext\<in>set exts. suffix ext (toLowerCase raw))
            \<and> newURL raw base = Some u)"
proof (intro conjI ballI)
  show "distinct (extractLinks newURL html exts base)"
    by (simp add: extractLinks_def distinct_new_Set)
next
  fix u assume "u \<in> set (extractLinks newURL html exts base)"
  then have "u \<in> set (link_loop newURL exts base (regex_exec_all html) [])"
    by (simp add: extractLinks_def set_new_Set)
  from link_loop_sound [OF this] obtain raw where "raw \<in> set (regex_exec_all html)"
    and r: "\<exists>ext\<in>set exts. suffix ext (toLowerCase raw)" "newURL raw base = Some u"
    by auto
  with regex_exec_all_sound show "\<exists>raw. attribute_value html raw
      \<and> (\<exists>ext\<in>set exts. suffix ext (toLowerCase raw)) \<and> newURL raw base = Some u"
    by blast
qed

text \<open>
  A page of the store whose link carries the file name in the query string.
\<close>

lemma sample_links:
  "extractLinks sample_URL ''<a href=\"download?file=manual.pdf\">Manual</a>'' [''.pdf'']
     ''https://store.ui.com/us/products/widget''
   = [''https://store.ui.com/us/products/download?file=manual.pdf'']"
  by (simp add: extractLinks_def new_Set_def set_add_def match_here_def match_attr_def isQuote_def
     endsWith_def toLowerCase_def toLowerChar_def sample_URL_def Let_def)

theorem extractLinks_sound_witness:
  "\<exists>raw. attribute_value ''<a href=\"download?file=manual.pdf\">Manual</a>'' raw
      \<and> (\<exists>ext\<in>set [''.pdf'']. suffix ext (toLowerCase raw))
      \<and> sample_URL raw ''https://store.ui.com/us/products/widget''
          = Some ''https://store.ui.com/us/products/download?file=manual.pdf''"
  using extractLinks_sound [of sample_URL "''<a href=\"download?file=manual.pdf\">Manual</a>''"
      "[''.pdf'']" "''https://store.ui.com/us/products/widget''"]
  by (simp add: sample_links)

text \<open>
  Claim C1 as it is stated speaks of the path of the resolved URL. The code tests the
  text of the attribute: \<open>download?file=manual.pdf\<close> ends in \<open>.pdf\<close> and is kept, and
  the path of its resolved URL is \<open>/us/products/download\<close>.
\<close>

theorem extractLinks_query_counterexample:
  "extractLinks sample_URL ''<a href=\"download?file=manual.pdf\">Manual</a>'' [''.pdf'']
     ''https://store.ui.com/us/products/widget''
   = [''https://store.ui.com/us/products/download?file=manual.pdf'']
   \<and> URL_pathname ''https://store.ui.com/us/products/download?file=manual.pdf''
       = ''/us/products/download''
   \<and> \<not> endsWith (toLowerCase ''/us/products/download'') ''.pdf''"
  by (simp add: sample_links)
     (simp add: URL_pathname_def endsWith_def toLowerCase_def toLowerChar_def Let_def)


section \<open>The specification table\<close>

lemma assignAll_simps:
  "assignAll obj [] = obj"
  "assignAll obj (kv # kvs) = assignAll (obj_set obj (fst kv) (snd kv)) kvs"
  "assignAll obj (xs @ ys) = assignAll (assignAll obj xs) ys"
  by (simp_all add: assignAll_def)

lemma c_at_in_range: "i < length c \<Longrightarrow> c_at c i = [c ! i]"
  by (simp add: c_at_def)

lemma rowStep_entry:
  "rowStep api specs row =
     (case rowEntry api row of None \<Rightarrow> specs | Some kv \<Rightarrow> obj_set specs (fst kv) (snd kv))"
  by (auto simp: rowStep_def rowEntry_def Let_def c_at_def)

lemma foldl_rowStep:
  "foldl (rowStep api) specs rows = assignAll specs (List.map_filter (rowEntry api) rows)"
  by (induction rows arbitrary: specs)
     (simp_all add: map_filter_simps assignAll_simps rowStep_entry split: option.splits)

lemma js_trim_Nil: "js_trim [] = []"
  by (simp add: js_trim_def)

lemma termStep_entry:
  "i < length terms \<Longrightarrow>
   termStep api defs specs (i, terms ! i) =
     (case termEntry api terms defs i of None \<Rightarrow> specs | Some kv \<Rightarrow> obj_set specs (fst kv) (snd kv))"
  by (simp add: termStep_def termEntry_def Let_def c_at_def c_text_def js_trim_Nil)

lemma foldl_termStep:
  "set is \<subseteq> {..<length terms} \<Longrightarrow>
   foldl (termStep api defs) specs (map (\<lambda>i. (i, terms ! i)) is)
     = assignAll specs (List.map_filter (termEntry api terms defs) is)"
  by (induction "is" arbitrary: specs)
     (simp_all add: map_filter_simps assignAll_simps termStep_entry split: option.splits)

lemma zip_upt_nth: "zip [0..<length xs] xs = map (\<lambda>i. (i, xs ! i)) [0..<length xs]"
  by (rule nth_equalityI) simp_all

lemma listStep_entries: "listStep api specs lst = assignAll specs (listEntries api lst)"
proof -
  have "set [0..<length terms] \<subseteq> {..<length terms}" for terms :: "'a list"
    by auto
  from foldl_termStep [OF this] show ?thesis
    by (simp add: listStep_def listEntries_def Let_def zip_upt_nth)
qed

lemma dlScan_entries: "dlScan api specs = assignAll specs (dlEntries api)"
proof -
  have "foldl (listStep api) specs lists = assignAll specs (concat (map (listEntries api) lists))"
    for lists
    by (induction lists arbitrary: specs) (simp_all add: assignAll_simps listStep_entries)
  then show ?thesis by (simp add: dlScan_def dlEntries_def)
qed

lemma tableEntries_no_table: "dollar api selector = [] \<Longrightarrow> tableEntries api selector = []"
  by (simp add: tableEntries_def c_find_def map_filter_simps)

lemma specLoop_find:
  "specLoop api [] selectors =
     (case List.find (\<lambda>selector. assignAll [] (tableEntries api selector) \<noteq> []) selectors of
        Some selector \<Rightarrow> assignAll [] (tableEntries api selector)
      | None \<Rightarrow> assignAll [] (dlEntries api))"
proof (induction selectors)
  case Nil
  show ?case by (simp add: dlScan_entries)
next
  case (Cons selector selectors)
  show ?case
  proof (cases "dollar api selector = []")
    case True
    with Cons show ?thesis
      by (simp add: tableEntries_no_table assignAll_simps)
  next
    case False
    with Cons show ?thesis
      by (simp add: Let_def foldl_rowStep tableEntries_def)
  qed
qed

lemma assignAll_putAll:
  "\<forall>kv\<in>set entries. fst kv \<noteq> ''__proto__'' \<Longrightarrow> assignAll obj entries = putAll obj entries"
  by (induction entries arbitrary: obj) (simp_all add: assignAll_def putAll_def obj_set_def)

lemma update_not_Nil: "AList.update k v m \<noteq> []"
  by (cases m) auto

lemma putAll_not_Nil: "m \<noteq> [] \<or> entries \<noteq> [] \<Longrightarrow> putAll m entries \<noteq> []"
proof (induction entries arbitrary: m)
  case Nil
  then show ?case by (simp add: putAll_def)
next
  case (Cons kv kvs)
  have "putAll (AList.update (fst kv) (snd kv) m) kvs \<noteq> []"
    by (rule Cons.IH) (simp add: update_not_Nil)
  then show ?case by (simp add: putAll_def)
qed

lemma putAll_Nil_iff: "putAll [] entries = [] \<longleftrightarrow> entries = []"
  using putAll_not_Nil [of "[]" entries] by (auto simp: putAll_def)

lemma find_Some_set: "List.find P xs = Some x \<Longrightarrow> x \<in> set xs"
  by (induction xs) (auto split: if_splits)

text \<open>
  Apart from the key \<open>__proto__\<close>, specification extraction is what claim C6 says:
  when no row and no term has that key, it equals the reference \<open>claimed_specifications\<close>.
\<close>

lemma specifications_as_claimed:
  assumes tables: "\<forall>selector\<in>set specSelectors.
             \<forall>kv\<in>set (tableEntries api selector). fst kv \<noteq> ''__proto__''"
    and lists: "\<forall>kv\<in>set (dlEntries api). fst kv \<noteq> ''__proto__''"
  shows "extractProductSpecifications api = claimed_specifications api"
proof -
  have same: "assignAll [] (tableEntries api selector) = putAll [] (tableEntries api selector)"
    if "selector \<in> set specSelectors" for selector
    using tables that by (simp add: assignAll_putAll)
  have "List.find (\<lambda>selector. assignAll [] (tableEntries api selector) \<noteq> []) specSelectors
        = List.find (\<lambda>selector. tableEntries api selector \<noteq> []) specSelectors"
    by (rule find_cong) (simp_all add: same putAll_Nil_iff)
  moreover have "assignAll [] (dlEntries api) = putAll [] (dlEntries api)"
    using lists by (simp add: assignAll_putAll)
  ultimately show ?thesis
    unfolding extractProductSpecifications_def claimed_specifications_def specLoop_find
    by (auto split: option.splits dest: find_Some_set simp: same)
qed

text \<open>The table of the claim, with the rows (Key1, Val1), (empty, empty), (Key2, Val2).\<close>

lemma table_page_specifications:
  "extractProductSpecifications table_page = [(''Key1'', ''Val1''), (''Key2'', ''Val2'')]"
  by (simp add: extractProductSpecifications_def specSelectors_def table_page_def rowStep_def
      c_find_def c_text_def c_at_def js_trim_def isWhiteSpace_def obj_set_def Let_def)

text \<open>
  Claim C6, at a page whose specification table has the one row (\<open>__proto__\<close>, \<open>x\<close>)
  and which has a \<open>dl\<close> list with the term \<open>A\<close> and the definition \<open>1\<close>. The row has
  two cells and neither is empty, so by the claim it is an entry, the table yields
  an entry and the result is the map of \<open>__proto__\<close> to \<open>x\<close>. In the code the assignment
  \<open>specs[key] = value\<close> with that key leaves the object without a key: the table is
  passed over and the result comes from the \<open>dl\<close> list.
\<close>

theorem proto_row_lost:
  "extractProductSpecifications proto_page = [(''A'', ''1'')]
   \<and> tableEntries proto_page ''.specs-table'' = [(''__proto__'', ''x'')]
   \<and> claimed_specifications proto_page = [(''__proto__'', ''x'')]"
  by (simp add: extractProductSpecifications_def claimed_specifications_def specSelectors_def
      proto_page_def rowStep_def dlScan_def listStep_def termStep_def tableEntries_def
      rowEntry_def putAll_def c_find_def c_text_def c_at_def js_trim_def isWhiteSpace_def
      obj_set_def Let_def)


lemma set_update_subset: "set (AList.update k v al) \<subseteq> insert (k, v) (set al)"
  by (induction al) auto

lemma js_trim_ends:
  assumes "js_trim s \<noteq> []"
  shows "\<not> isWhiteSpace (hd (js_trim s)) \<and> \<not> isWhiteSpace (last (js_trim s))"
proof -
  define t where "t = dropWhile isWhiteSpace s"
  define u where "u = dropWhile isWhiteSpace (rev t)"
  have trim: "js_trim s = rev u" by (simp add: js_trim_def t_def u_def)
  with assms have u: "u \<noteq> []" by simp
  then have rt: "rev t \<noteq> []" by (auto simp: u_def)
  then have t: "t \<noteq> []" by simp
  have "\<not> isWhiteSpace (hd u)"
    using u unfolding u_def by (rule hd_dropWhile)
  moreover have "last u = last (rev t)"
  proof -
    have "rev t = takeWhile isWhiteSpace (rev t) @ u" by (simp add: u_def)
    then have "last (rev t) = last (takeWhile isWhiteSpace (rev t) @ u)" by simp
    also have "\<dots> = last u" using u by simp
    finally show ?thesis by simp
  qed
  moreover have "last (rev t) = hd t" using t by (simp add: last_rev)
  moreover have "\<not> isWhiteSpace (hd t)"
    using t unfolding t_def by (rule hd_dropWhile)
  ultimately show ?thesis
    using u by (simp add: trim hd_rev last_rev)
qed

lemma trimmed_pairs_obj_set:
  assumes "trimmed_pairs api obj" and "k \<noteq> []" and "v \<noteq> []"
    and "\<exists>e1 e2. k = js_trim (c_text api [e1]) \<and> v = js_trim (c_text api [e2])"
  shows "trimmed_pairs api (obj_set obj k v)"
proof -
  have sub: "set (obj_set obj k v) \<subseteq> insert (k, v) (set obj)"
    using set_update_subset [of k v obj] by (auto simp: obj_set_def)
  show ?thesis
    unfolding trimmed_pairs_def
  proof
    fix kv
    assume "kv \<in> set (obj_set obj k v)"
    with sub have "kv = (k, v) \<or> kv \<in> set obj" by auto
    then show "fst kv \<noteq> [] \<and> snd kv \<noteq> []
        \<and> (\<exists>e1 e2. fst kv = js_trim (c_text api [e1]) \<and> snd kv = js_trim (c_text api [e2]))"
    proof
      assume "kv = (k, v)"
      with assms(2-4) show ?thesis by simp
    next
      assume "kv \<in> set obj"
      with assms(1) [unfolded trimmed_pairs_def] show ?thesis by (rule bspec)
    qed
  qed
qed

lemma trimmed_pairs_assignAll:
  "trimmed_pairs api obj \<Longrightarrow> trimmed_pairs api entries \<Longrightarrow> trimmed_pairs api (assignAll obj entries)"
proof (induction entries arbitrary: obj)
  case Nil
  then show ?case by (simp add: assignAll_simps)
next
  case (Cons kv kvs)
  from Cons.prems(2) have kv: "fst kv \<noteq> []" "snd kv \<noteq> []"
    "\<exists>e1 e2. fst kv = js_trim (c_text api [e1]) \<and> snd kv = js_trim (c_text api [e2])"
    and kvs: "trimmed_pairs api kvs"
    by (simp_all add: trimmed_pairs_def)
  from trimmed_pairs_obj_set [OF Cons.prems(1) kv] kvs show ?case
    by (simp add: assignAll_simps Cons.IH)
qed

lemma trimmed_pairs_map_filter:
  assumes "\<And>x k v. f x = Some (k, v) \<Longrightarrow>
             k \<noteq> [] \<and> v \<noteq> [] \<and> (\<exists>e1 e2. k = js_trim (c_text api [e1]) \<and> v = js_trim (c_text api [e2]))"
  shows "trimmed_pairs api (List.map_filter f xs)"
proof (induction xs)
  case Nil
  show ?case by (simp add: trimmed_pairs_def map_filter_simps)
next
  case (Cons x xs)
  show ?case
  proof (cases "f x")
    case None
    with Cons show ?thesis by (simp add: map_filter_simps)
  next
    case (Some kv)
    with assms [of x "fst kv" "snd kv"] Cons show ?thesis
      by (simp add: map_filter_simps trimmed_pairs_def)
  qed
qed

lemma trimmed_pairs_tableEntries: "trimmed_pairs api (tableEntries api selector)"
  unfolding tableEntries_def
  by (rule trimmed_pairs_map_filter) (auto simp: rowEntry_def Let_def split: if_splits)

lemma trimmed_pairs_listEntries: "trimmed_pairs api (listEntries api lst)"
  unfolding listEntries_def Let_def
  by (rule trimmed_pairs_map_filter) (auto simp: termEntry_def Let_def split: if_splits)

lemma trimmed_pairs_dlEntries: "trimmed_pairs api (dlEntries api)"
  using trimmed_pairs_listEntries [of api] by (fastforce simp: trimmed_pairs_def dlEntries_def)

text \<open>
  Claim C10. Every key and every value of the object that specification extraction
  returns, on the table path and on the \<open>dl\<close> path, is the trimmed text of an element
  of the page and is not empty: it has a first and a last character and neither is
  white space. So a pair whose term or definition is missing, empty or all white space
  is not in the object.
\<close>

theorem specifications_filled:
  "(key, val) \<in> set (extractProductSpecifications api) \<Longrightarrow>
   key \<noteq> [] \<and> val \<noteq> []
   \<and> (\<exists>e1 e2. key = js_trim (c_text api [e1]) \<and> val = js_trim (c_text api [e2]))
   \<and> \<not> isWhiteSpace (hd key) \<and> \<not> isWhiteSpace (last key)
   \<and> \<not> isWhiteSpace (hd val) \<and> \<not> isWhiteSpace (last val)"
proof -
  assume mem: "(key, val) \<in> set (extractProductSpecifications api)"
  have "trimmed_pairs api []" by (simp add: trimmed_pairs_def)
  then have "trimmed_pairs api (extractProductSpecifications api)"
    unfolding extractProductSpecifications_def specLoop_find
    by (simp add: trimmed_pairs_assignAll trimmed_pairs_tableEntries trimmed_pairs_dlEntries
        split: option.splits)
  then have "fst (key, val) \<noteq> [] \<and> snd (key, val) \<noteq> []
      \<and> (\<exists>e1 e2. fst (key, val) = js_trim (c_text api [e1])
            \<and> snd (key, val) = js_trim (c_text api [e2]))"
    unfolding trimmed_pairs_def using mem by (rule bspec)
  then have ne: "key \<noteq> []" "val \<noteq> []"
    and src: "\<exists>e1 e2. key = js_trim (c_text api [e1]) \<and> val = js_trim (c_text api [e2])"
    by simp_all
  from src obtain e1 e2 where k: "key = js_trim (c_text api [e1])"
    and v: "val = js_trim (c_text api [e2])" by blast
  from js_trim_ends [of "c_text api [e1]"] ne(1) k
  have "\<not> isWhiteSpace (hd key) \<and> \<not> isWhiteSpace (last key)" by simp
  moreover from js_trim_ends [of "c_text api [e2]"] ne(2) v
  have "\<not> isWhiteSpace (hd val) \<and> \<not> isWhiteSpace (last val)" by simp
  ultimately show ?thesis using ne src by simp
qed

text \<open>
  The witness: of the rows (Key1, no-break space) and (Key2, Val2 with white space
  around both), only the second is in the object, trimmed.
\<close>

lemma blank_page_specifications:
  "extractProductSpecifications blank_page = [(''Key2'', ''Val2'')]"
  by (simp add: extractProductSpecifications_def specSelectors_def blank_page_def rowStep_def
      c_find_def c_text_def c_at_def js_trim_def isWhiteSpace_def obj_set_def Let_def)

theorem specifications_filled_witness:
  "extractProductSpecifications blank_page = [(''Key2'', ''Val2'')]
   \<and> \<not> isWhiteSpace (hd ''Key2'') \<and> \<not> isWhiteSpace (last ''Key2'')
   \<and> \<not> isWhiteSpace (hd ''Val2'') \<and> \<not> isWhiteSpace (last ''Val2'')"
  using specifications_filled [of "''Key2''" "''Val2''" blank_page]
  by (simp add: blank_page_specifications)


section \<open>The product parser on a page without product markup\<close>

text \<open>
  When no selector of the name, description, price, specification and feature
  cascades matches and the page has no \<open>dl\<close> list, every field but the name is its
  fallback, and the name is what the title pattern leaves of the trimmed title text,
  or \<open>Unknown Product\<close> when that is empty.
\<close>

lemma no_match_fallbacks:
  assumes "\<forall>selector\<in>set (nameSelectors @ descriptionSelectors @ priceSelectors @ specSelectors
             @ featureSelectors @ [''dl'']). dollar api selector = []"
  shows "extractProductInfo api url =
     \<lparr>p_name = (let title = replacePattern (js_trim (c_text api (dollar api ''title'')))
                in if title \<noteq> [] then title else ''Unknown Product''),
      p_description = [], p_price = ''Price not available'',
      p_specifications = [], p_features = [], p_url = url\<rparr>"
proof -
  from assms have n: "nameCascade api nameSelectors = None"
    by (simp add: nameSelectors_def c_first_def c_text_def js_trim_Nil)
  from assms have d: "descriptionCascade api descriptionSelectors = []"
    by (simp add: descriptionSelectors_def c_text_def c_attr_def js_trim_Nil)
  from assms have p: "priceCascade api priceSelectors = ''Price not available''"
    by (simp add: priceSelectors_def c_first_def c_text_def c_attr_def js_trim_Nil)
  from assms have s: "specLoop api [] specSelectors = []"
    by (simp add: specSelectors_def dlScan_def)
  from assms have f: "featureLoop api [] featureSelectors = []"
    by (simp add: featureSelectors_def)
  show ?thesis
    by (simp add: extractProductInfo_def extractProductName_def extractProductDescription_def
        extractProductPrice_def extractProductSpecifications_def extractProductFeatures_def
        n d p s f)
qed

text \<open>
  Claim C5, at the page \<^verbatim>\<open><title>Widget - Ubiquiti Store</title>\<close> with no
  product markup. The claim has the site suffix stripped from the title, so the name
  would be \<open>Widget\<close>. The pattern of the source has its backslashes doubled and needs
  a backslash in the title to match: the name keeps the suffix. The other fields are
  the fallbacks of the claim.
\<close>

theorem title_suffix_kept:
  "extractProductInfo title_page u =
   \<lparr>p_name = ''Widget - Ubiquiti Store'', p_description = [], p_price = ''Price not available'',
    p_specifications = [], p_features = [], p_url = u\<rparr>"
  by (simp add: extractProductInfo_def extractProductName_def nameSelectors_def
      extractProductDescription_def descriptionSelectors_def extractProductPrice_def
      priceSelectors_def extractProductSpecifications_def specSelectors_def dlScan_def
      extractProductFeatures_def featureSelectors_def title_page_def c_text_def c_attr_def
      c_first_def js_trim_def isWhiteSpace_def matchesPattern_def backslash_def Let_def)


section \<open>The crawl\<close>



text \<open>Two runs, evaluated: the sample store, and the store of which no page loads.\<close>

lemma sample_run:
  "start sample_web sample_config new_crawler =
     (\<lparr>visitedUrls = [''http://s/'', ''http://s/c/a''],
       productUrls = [''http://s/products/p''],
       urlsToVisit = []\<rparr>,
      [Push ''http://s/'' [''http://s/''],
       Shift ''http://s/'' [],
       Visit ''http://s/'',
       Push ''http://s/c/a'' [''http://s/c/a''],
       AddProduct ''http://s/products/p'',
       Delay,
       Shift ''http://s/c/a'' [],
       Visit ''http://s/c/a'',
       AddProduct ''http://s/products/p'',
       Delay],
      [''http://s/products/p''])"
  by (simp add: start_def crawl_loop.simps iteration_def processPage_def processLink_def
      set_add_def sample_web_def sample_config_def new_crawler_def Let_def)

lemma down_run:
  "start web_down store_config new_crawler =
     (\<lparr>visitedUrls = [''https://store.ui.com/us/''], productUrls = [], urlsToVisit = []\<rparr>,
      [Push ''https://store.ui.com/us/'' [''https://store.ui.com/us/''],
       Shift ''https://store.ui.com/us/'' [],
       Visit ''https://store.ui.com/us/'',
       PageError ''https://store.ui.com/us/'',
       Delay],
      [])"
  by (simp add: start_def crawl_loop.simps iteration_def processPage_def
      set_add_def web_down_def store_config_def new_crawler_def Let_def)

lemma second_start_run:
  "run_log (start web_down store_config (fst (start web_down store_config new_crawler)))
   = [Push ''https://store.ui.com/us/'' [''https://store.ui.com/us/''],
      Shift ''https://store.ui.com/us/'' [], Skip]"
  by (simp add: down_run) (simp add: start_def run_log_def crawl_loop.simps iteration_def
      store_config_def Let_def)


lemma crawl_loop_invariant:
  assumes "P s"
    and "\<And>s. P s \<Longrightarrow> urlsToVisit (fst s) \<noteq> [] \<Longrightarrow> fst (snd s) < maxPages cfg \<Longrightarrow> P (iteration web cfg s)"
  shows "P (crawl_loop web cfg s)"
  using assms
proof (induction web cfg s rule: crawl_loop.induct)
  case (1 web cfg s)
  show ?case
  proof (cases "length (urlsToVisit (fst s)) > 0 \<and> fst (snd s) < maxPages cfg")
    case True
    then have "P (iteration web cfg s)" using "1.prems" by simp
    from "1.IH" [OF True this "1.prems"(2)] True show ?thesis
      by (subst crawl_loop.simps) simp
  next
    case False
    with "1.prems"(1) show ?thesis
      by (subst crawl_loop.simps) auto
  qed
qed

lemma fetched_simps:
  "fetched [] = []"
  "fetched (xs @ ys) = fetched xs @ fetched ys"
  "fetched (Visit u # es) = u # fetched es"
  "fetched (Shift u q # es) = fetched es"
  "fetched (Skip # es) = fetched es"
  "fetched (PageError u # es) = fetched es"
  "fetched (AddProduct u # es) = fetched es"
  "fetched (Push u q # es) = fetched es"
  "fetched (Delay # es) = fetched es"
  by (simp_all add: fetched_def)

lemma frontiers_simps:
  "frontiers [] = []"
  "frontiers (xs @ ys) = frontiers xs @ frontiers ys"
  "frontiers (Visit u # es) = frontiers es"
  "frontiers (Shift u q # es) = q # frontiers es"
  "frontiers (Skip # es) = frontiers es"
  "frontiers (PageError u # es) = frontiers es"
  "frontiers (AddProduct u # es) = frontiers es"
  "frontiers (Push u q # es) = q # frontiers es"
  "frontiers (Delay # es) = frontiers es"
  by (simp_all add: frontiers_def)

lemma discovered_simps:
  "discovered [] = []"
  "discovered (xs @ ys) = discovered xs @ discovered ys"
  "discovered (Visit u # es) = discovered es"
  "discovered (Shift u q # es) = discovered es"
  "discovered (Skip # es) = discovered es"
  "discovered (PageError u # es) = discovered es"
  "discovered (AddProduct u # es) = u # discovered es"
  "discovered (Push u q # es) = discovered es"
  "discovered (Delay # es) = discovered es"
  by (simp_all add: discovered_def)

lemma delays_simps:
  "delays [] = 0"
  "delays (xs @ ys) = delays xs + delays ys"
  "delays (Visit u # es) = delays es"
  "delays (Shift u q # es) = delays es"
  "delays (Skip # es) = delays es"
  "delays (PageError u # es) = delays es"
  "delays (AddProduct u # es) = delays es"
  "delays (Push u q # es) = delays es"
  "delays (Delay # es) = Suc (delays es)"
  by (simp_all add: delays_def)

lemma foldl_processLink_inv:
  assumes "Q sl" and "\<And>sl link. Q sl \<Longrightarrow> Q (processLink cfg sl link)"
  shows "Q (foldl (processLink cfg) sl links)"
  using assms(1) by (induction links arbitrary: sl) (simp_all add: assms(2))

lemma processPage_inv:
  assumes "Q sl" and "\<And>sl link. Q sl \<Longrightarrow> Q (processLink cfg sl link)"
    and "\<And>st log. Q (st, log) \<Longrightarrow> Q (st, log @ [Visit u])"
    and "\<And>st log. Q (st, log) \<Longrightarrow> Q (st, log @ [Visit u, PageError u])"
  shows "Q (processPage web cfg k u sl)"
proof (cases "web k u")
  case None
  with assms(4) [of "fst sl" "snd sl"] assms(1) show ?thesis
    by (simp add: processPage_def)
next
  case (Some links)
  have "Q (fst sl, snd sl @ [Visit u])" using assms(1,3) by simp
  then have "Q (foldl (processLink cfg) (fst sl, snd sl @ [Visit u]) links)"
    by (rule foldl_processLink_inv) (rule assms(2))
  with Some show ?thesis by (simp add: processPage_def)
qed

lemma processLink_visited: "visitedUrls (fst (processLink cfg sl link)) = visitedUrls (fst sl)"
  by (simp add: processLink_def Let_def)

lemma processLink_fetched: "fetched (snd (processLink cfg sl link)) = fetched (snd sl)"
  by (simp add: processLink_def Let_def fetched_simps)

lemma foldl_processLink_visited:
  "visitedUrls (fst (foldl (processLink cfg) sl links)) = visitedUrls (fst sl)"
  by (induction links arbitrary: sl) (simp_all add: processLink_visited)

lemma foldl_processLink_fetched:
  "fetched (snd (foldl (processLink cfg) sl links)) = fetched (snd sl)"
  by (induction links arbitrary: sl) (simp_all add: processLink_fetched)

lemma processPage_visited:
  "visitedUrls (fst (processPage web cfg k u sl)) = visitedUrls (fst sl)"
  by (simp add: processPage_def foldl_processLink_visited split: option.splits)

lemma processPage_fetched:
  "fetched (snd (processPage web cfg k u sl)) = fetched (snd sl) @ [u]"
  by (simp add: processPage_def foldl_processLink_fetched fetched_simps split: option.splits)

lemma iteration_fetch_inv:
  assumes "fetch_inv V s"
  shows "fetch_inv V (iteration web cfg s)"
proof (cases "hd (urlsToVisit (fst s)) \<in> set (visitedUrls (fst s))")
  case True
  with assms show ?thesis
    by (simp add: iteration_def Let_def fetch_inv_def fetched_simps)
next
  case False
  with assms show ?thesis
    by (auto simp: iteration_def Let_def fetch_inv_def processPage_visited processPage_fetched
        set_add_def fetched_simps)
qed

text \<open>
  Claim C3. For every store, configuration and crawler state at the call of
  \<open>start\<close>, the pages fetched during the crawl loop do not repeat, and none of them
  was in the visited set at the start.
\<close>

theorem crawl_pages_fetched_once:
  "distinct (fetched (run_log (start web cfg st)))
   \<and> set (fetched (run_log (start web cfg st))) \<inter> set (visitedUrls st) = {}"
proof -
  define s0 where "s0 = (st\<lparr>urlsToVisit := urlsToVisit st @ [baseUrl cfg]\<rparr>, 0::nat,
    [Push (baseUrl cfg) (urlsToVisit st @ [baseUrl cfg])])"
  have "fetch_inv (set (visitedUrls st)) s0"
    by (simp add: fetch_inv_def s0_def fetched_simps)
  then have "fetch_inv (set (visitedUrls st)) (crawl_loop web cfg s0)"
    by (rule crawl_loop_invariant) (rule iteration_fetch_inv)
  then show ?thesis
    by (simp add: fetch_inv_def start_def run_log_def Let_def s0_def)
qed

theorem crawl_pages_fetched_once_witness:
  "fetched (run_log (start sample_web sample_config new_crawler)) = [''http://s/'', ''http://s/c/a'']
   \<and> distinct (fetched (run_log (start sample_web sample_config new_crawler)))"
  using crawl_pages_fetched_once [of sample_web sample_config new_crawler]
  by (simp add: sample_run run_log_def fetched_simps)


lemma processLink_frontier_inv: "frontier_inv sl \<Longrightarrow> frontier_inv (processLink cfg sl link)"
  by (simp add: processLink_def Let_def frontier_inv_def frontiers_simps)

lemma processPage_frontier_inv: "frontier_inv sl \<Longrightarrow> frontier_inv (processPage web cfg k u sl)"
  by (rule processPage_inv) (simp_all add: processLink_frontier_inv, simp_all add: frontier_inv_def frontiers_simps)

lemma iteration_frontier_inv:
  assumes "frontier_inv (fst s, snd (snd s))"
  shows "frontier_inv (fst (iteration web cfg s), snd (snd (iteration web cfg s)))"
proof (cases "hd (urlsToVisit (fst s)) \<in> set (visitedUrls (fst s))")
  case True
  with assms show ?thesis
    by (simp add: iteration_def Let_def frontier_inv_def frontiers_simps distinct_tl)
next
  case False
  let ?u = "hd (urlsToVisit (fst s))"
  let ?sl = "(fst s\<lparr>urlsToVisit := tl (urlsToVisit (fst s)),
                    visitedUrls := set_add (visitedUrls (fst s)) ?u\<rparr>,
              snd (snd s) @ [Shift ?u (tl (urlsToVisit (fst s)))])"
  from assms have "frontier_inv ?sl"
    by (simp add: frontier_inv_def frontiers_simps distinct_tl)
  then have "frontier_inv (processPage web cfg (fst (snd s)) ?u ?sl)"
    by (rule processPage_frontier_inv)
  with False show ?thesis
    by (simp add: iteration_def Let_def frontier_inv_def frontiers_simps)
qed

text \<open>
  Claim C9, as the code has it. In a run of \<open>start\<close> on a crawler whose frontier, with
  the seed pushed onto it, holds no URL twice (a new crawler is one), the frontier
  never holds a URL twice: after the seed, after every \<open>shift\<close> and after every
  \<open>push\<close> of a link, which is made only when the link is not in the frontier.
\<close>

theorem frontier_never_repeats:
  "distinct (urlsToVisit st @ [baseUrl cfg]) \<Longrightarrow>
   \<forall>q\<in>set (frontiers (run_log (start web cfg st))). distinct q"
proof -
  assume seed: "distinct (urlsToVisit st @ [baseUrl cfg])"
  let ?P = "\<lambda>s. frontier_inv (fst s, snd (snd s))"
  define s0 where "s0 = (st\<lparr>urlsToVisit := urlsToVisit st @ [baseUrl cfg]\<rparr>, 0::nat,
    [Push (baseUrl cfg) (urlsToVisit st @ [baseUrl cfg])])"
  have "?P s0"
    using seed by (simp add: frontier_inv_def s0_def frontiers_simps)
  then have "?P (crawl_loop web cfg s0)"
    by (rule crawl_loop_invariant) (rule iteration_frontier_inv)
  then show ?thesis
    by (simp add: frontier_inv_def start_def run_log_def Let_def s0_def)
qed

theorem frontier_never_repeats_witness:
  "distinct (urlsToVisit new_crawler @ [baseUrl sample_config])
   \<and> frontiers (run_log (start sample_web sample_config new_crawler))
       = [[''http://s/''], [], [''http://s/c/a''], []]
   \<and> list_all distinct (frontiers (run_log (start sample_web sample_config new_crawler)))"
  using frontier_never_repeats [where st = new_crawler and cfg = sample_config and web = sample_web]
  by (simp add: sample_run run_log_def frontiers_simps)
     (simp add: new_crawler_def)

text \<open>
  Three calls of \<open>start\<close> on one crawler, with a page cap of one. The first stops with
  the collection in the frontier, the second pushes the base URL behind it, fetches
  the collection and stops, and the third pushes the base URL again.
\<close>

lemma capped_run_1:
  "start capped_web capped_config new_crawler =
     (\<lparr>visitedUrls = [''http://s/''], productUrls = [], urlsToVisit = [''http://s/c/d'']\<rparr>,
      [Push ''http://s/'' [''http://s/''],
       Shift ''http://s/'' [],
       Visit ''http://s/'',
       Push ''http://s/c/d'' [''http://s/c/d''],
       Delay],
      [])"
  by (simp add: start_def crawl_loop.simps iteration_def processPage_def processLink_def
      set_add_def capped_web_def capped_config_def new_crawler_def Let_def)

lemma capped_run_2:
  "start capped_web capped_config
     \<lparr>visitedUrls = [''http://s/''], productUrls = [], urlsToVisit = [''http://s/c/d'']\<rparr> =
     (\<lparr>visitedUrls = [''http://s/'', ''http://s/c/d''], productUrls = [],
       urlsToVisit = [''http://s/'']\<rparr>,
      [Push ''http://s/'' [''http://s/c/d'', ''http://s/''],
       Shift ''http://s/c/d'' [''http://s/''],
       Visit ''http://s/c/d'',
       PageError ''http://s/c/d'',
       Delay],
      [])"
  by (simp add: start_def crawl_loop.simps iteration_def processPage_def processLink_def
      set_add_def capped_web_def capped_config_def Let_def)

lemma capped_run_3:
  "start capped_web capped_config
     \<lparr>visitedUrls = [''http://s/'', ''http://s/c/d''], productUrls = [],
      urlsToVisit = [''http://s/'']\<rparr> =
     (\<lparr>visitedUrls = [''http://s/'', ''http://s/c/d''], productUrls = [], urlsToVisit = []\<rparr>,
      [Push ''http://s/'' [''http://s/'', ''http://s/''],
       Shift ''http://s/'' [''http://s/''],
       Skip,
       Shift ''http://s/'' [],
       Skip],
      [])"
  by (simp add: start_def crawl_loop.simps iteration_def processPage_def processLink_def
      set_add_def capped_web_def capped_config_def Let_def)

text \<open>
  Claim C9 as it is stated has no frontier with a URL twice at any point. The seed is
  pushed without the check that guards the links: in the third run the frontier is
  the base URL twice.
\<close>

theorem seed_pushed_twice_counterexample:
  "frontiers (run_log (start capped_web capped_config
      (fst (start capped_web capped_config (fst (start capped_web capped_config new_crawler))))))
     = [[''http://s/'', ''http://s/''], [''http://s/''], []]
   \<and> \<not> distinct [''http://s/'', ''http://s/'']"
  by (simp add: capped_run_1 capped_run_2 capped_run_3 run_log_def frontiers_simps)


lemma processLink_product_inv: "product_inv sl \<Longrightarrow> product_inv (processLink cfg sl link)"
  by (auto simp: processLink_def Let_def product_inv_def discovered_simps set_add_def)

lemma processPage_product_inv: "product_inv sl \<Longrightarrow> product_inv (processPage web cfg k u sl)"
  by (rule processPage_inv) (simp_all add: processLink_product_inv, simp_all add: product_inv_def discovered_simps)

lemma iteration_product_inv:
  assumes "product_inv (fst s, snd (snd s))"
  shows "product_inv (fst (iteration web cfg s), snd (snd (iteration web cfg s)))"
proof (cases "hd (urlsToVisit (fst s)) \<in> set (visitedUrls (fst s))")
  case True
  with assms show ?thesis
    by (simp add: iteration_def Let_def product_inv_def discovered_simps)
next
  case False
  let ?u = "hd (urlsToVisit (fst s))"
  let ?sl = "(fst s\<lparr>urlsToVisit := tl (urlsToVisit (fst s)),
                    visitedUrls := set_add (visitedUrls (fst s)) ?u\<rparr>,
              snd (snd s) @ [Shift ?u (tl (urlsToVisit (fst s)))])"
  from assms have "product_inv ?sl"
    by (simp add: product_inv_def discovered_simps)
  then have "product_inv (processPage web cfg (fst (snd s)) ?u ?sl)"
    by (rule processPage_product_inv)
  with False show ?thesis
    by (simp add: iteration_def Let_def product_inv_def discovered_simps)
qed

lemma count_list_distinct: "distinct xs \<Longrightarrow> x \<in> set xs \<Longrightarrow> count_list xs x = 1"
  by (induction xs) (auto simp: count_list_0_iff)

text \<open>
  Claim C7. In a run of \<open>start\<close> on a new crawler, a link added to the product set
  during the crawl loop, once or many times, is handed to \<open>processProductPage\<close>
  exactly once.
\<close>

theorem product_processed_once:
  "l \<in> set (discovered (run_log (start web cfg new_crawler))) \<Longrightarrow>
   count_list (run_productPages (start web cfg new_crawler)) l = 1"
proof -
  assume l: "l \<in> set (discovered (run_log (start web cfg new_crawler)))"
  let ?P = "\<lambda>s. product_inv (fst s, snd (snd s))"
  define s0 where "s0 = (new_crawler\<lparr>urlsToVisit := urlsToVisit new_crawler @ [baseUrl cfg]\<rparr>, 0::nat,
    [Push (baseUrl cfg) (urlsToVisit new_crawler @ [baseUrl cfg])])"
  have "?P s0"
    by (simp add: product_inv_def s0_def discovered_simps new_crawler_def)
  then have "?P (crawl_loop web cfg s0)"
    by (rule crawl_loop_invariant) (rule iteration_product_inv)
  then have "distinct (run_productPages (start web cfg new_crawler))"
    and "set (discovered (run_log (start web cfg new_crawler)))
           \<subseteq> set (run_productPages (start web cfg new_crawler))"
    by (simp_all add: product_inv_def start_def run_log_def run_productPages_def Let_def s0_def)
  with l count_list_distinct [of "run_productPages (start web cfg new_crawler)" l]
  show ?thesis by blast
qed

text \<open>The witness: the product is linked from both pages of the sample store.\<close>

theorem product_processed_once_witness:
  "discovered (run_log (start sample_web sample_config new_crawler))
     = [''http://s/products/p'', ''http://s/products/p'']
   \<and> count_list (run_productPages (start sample_web sample_config new_crawler))
         ''http://s/products/p'' = 1"
  using product_processed_once [of "''http://s/products/p''" sample_web sample_config]
  by (simp add: sample_run run_log_def run_productPages_def discovered_simps)


lemma processLink_noskip_inv: "noskip_inv sl \<Longrightarrow> noskip_inv (processLink cfg sl link)"
  by (simp add: processLink_def Let_def noskip_inv_def)

lemma processPage_noskip_inv: "noskip_inv sl \<Longrightarrow> noskip_inv (processPage web cfg k u sl)"
  by (rule processPage_inv) (simp_all add: processLink_noskip_inv, simp_all add: noskip_inv_def)

lemma iteration_noskip_inv:
  assumes "noskip_inv (fst s, snd (snd s))" and "urlsToVisit (fst s) \<noteq> []"
  shows "noskip_inv (fst (iteration web cfg s), snd (snd (iteration web cfg s)))"
proof -
  obtain u q where q: "urlsToVisit (fst s) = u # q"
    using assms(2) by (cases "urlsToVisit (fst s)") auto
  let ?sl = "(fst s\<lparr>urlsToVisit := q, visitedUrls := set_add (visitedUrls (fst s)) u\<rparr>,
              snd (snd s) @ [Shift u q])"
  from assms(1) q have d: "distinct (u # q)" "set (u # q) \<inter> set (visitedUrls (fst s)) = {}"
    "Skip \<notin> set (snd (snd s))"
    by (simp_all add: noskip_inv_def)
  then have new: "u \<notin> set (visitedUrls (fst s))" by auto
  have "noskip_inv ?sl"
    using d new unfolding noskip_inv_def by (auto simp: set_add_def)
  then have "noskip_inv (processPage web cfg (fst (snd s)) u ?sl)"
    by (rule processPage_noskip_inv)
  with new q show ?thesis
    by (simp add: iteration_def Let_def noskip_inv_def)
qed

lemma processPage_delays:
  "delays (snd (processPage web cfg k u sl)) = delays (snd sl)"
proof -
  have "delays (snd (processPage web cfg k u sl)) = delays (snd sl)"
    by (rule processPage_inv [where Q = "\<lambda>x. delays (snd x) = delays (snd sl)"])
      (simp_all add: processLink_def Let_def delays_simps)
  then show ?thesis .
qed

text \<open>
  Claim C8, as the code has it. A turn of the loop that pops a URL that is not visited
  fetches it and ends with the delay, whether or not the page load fails; a turn that
  pops a visited URL is the \<open>shift\<close> and the \<open>continue\<close>, without the delay. In a run
  of \<open>start\<close> on a new crawler no turn is of the second kind.
\<close>

theorem delay_after_fetch:
  "urlsToVisit st \<noteq> [] \<Longrightarrow>
   (hd (urlsToVisit st) \<notin> set (visitedUrls st) \<longrightarrow>
      fetched (snd (snd (iteration web cfg (st, n, [])))) = [hd (urlsToVisit st)]
      \<and> delays (snd (snd (iteration web cfg (st, n, [])))) = 1
      \<and> last (snd (snd (iteration web cfg (st, n, [])))) = Delay)
   \<and> (hd (urlsToVisit st) \<in> set (visitedUrls st) \<longrightarrow>
        snd (snd (iteration web cfg (st, n, []))) = [Shift (hd (urlsToVisit st)) (tl (urlsToVisit st)), Skip])
   \<and> Skip \<notin> set (run_log (start web cfg new_crawler))"
proof (intro conjI impI)
  assume "hd (urlsToVisit st) \<notin> set (visitedUrls st)"
  then show "fetched (snd (snd (iteration web cfg (st, n, [])))) = [hd (urlsToVisit st)]"
    and "delays (snd (snd (iteration web cfg (st, n, [])))) = 1"
    and "last (snd (snd (iteration web cfg (st, n, [])))) = Delay"
    by (simp_all add: iteration_def Let_def processPage_fetched processPage_delays
        fetched_simps delays_simps)
next
  assume "hd (urlsToVisit st) \<in> set (visitedUrls st)"
  then show "snd (snd (iteration web cfg (st, n, [])))
               = [Shift (hd (urlsToVisit st)) (tl (urlsToVisit st)), Skip]"
    by (simp add: iteration_def Let_def)
next
  let ?P = "\<lambda>s. noskip_inv (fst s, snd (snd s))"
  define s0 where "s0 = (new_crawler\<lparr>urlsToVisit := urlsToVisit new_crawler @ [baseUrl cfg]\<rparr>, 0::nat,
    [Push (baseUrl cfg) (urlsToVisit new_crawler @ [baseUrl cfg])])"
  have "?P s0"
    by (simp add: noskip_inv_def s0_def new_crawler_def)
  then have "?P (crawl_loop web cfg s0)"
    by (rule crawl_loop_invariant) (rule iteration_noskip_inv)
  then show "Skip \<notin> set (run_log (start web cfg new_crawler))"
    by (simp add: noskip_inv_def start_def run_log_def Let_def s0_def)
qed

text \<open>The witness: a turn whose page load fails.\<close>

theorem delay_after_fetch_witness:
  "urlsToVisit (new_crawler\<lparr>urlsToVisit := [''http://s/'']\<rparr>) \<noteq> []
   \<and> hd (urlsToVisit (new_crawler\<lparr>urlsToVisit := [''http://s/'']\<rparr>))
        \<notin> set (visitedUrls (new_crawler\<lparr>urlsToVisit := [''http://s/'']\<rparr>))
   \<and> web_down 0 ''http://s/'' = None
   \<and> delays (snd (snd (iteration web_down sample_config
          (new_crawler\<lparr>urlsToVisit := [''http://s/'']\<rparr>, 0, [])))) = 1
   \<and> last (snd (snd (iteration web_down sample_config
          (new_crawler\<lparr>urlsToVisit := [''http://s/'']\<rparr>, 0, [])))) = Delay"
  using delay_after_fetch [of "new_crawler\<lparr>urlsToVisit := [''http://s/'']\<rparr>" web_down sample_config 0]
  by (simp add: new_crawler_def web_down_def)

text \<open>
  Claim C8 as it is stated has the delay after every turn, also one that pops a
  visited URL. A second call of \<open>start\<close> on the same crawler pushes the base URL, which
  is visited by then: the turn that pops it is skipped and the log has no delay.
\<close>

theorem skipped_turn_counterexample:
  "run_log (start web_down store_config (fst (start web_down store_config new_crawler)))
     = [Push ''https://store.ui.com/us/'' [''https://store.ui.com/us/''],
        Shift ''https://store.ui.com/us/'' [], Skip]
   \<and> delays (run_log (start web_down store_config (fst (start web_down store_config new_crawler)))) = 0"
  by (simp add: second_start_run delays_simps)


end
